theory Spec2Isabelle
  imports Main
begin

section \<open>The store: link records and hooks\<close>

text \<open>
  Objects are identified by their address. A \<^verbatim>\<open>NodeBase\<close> has the two pointer
  fields \<^verbatim>\<open>prev_\<close> and \<^verbatim>\<open>next_\<close> (\<open>None\<close> is \<^verbatim>\<open>nullptr\<close>); an
  \<^verbatim>\<open>IntrusiveListNode\<close> adds the flag \<^verbatim>\<open>is_linked_\<close>. A list is the
  address of its \<^verbatim>\<open>sentinel_\<close>, which is a bare \<^verbatim>\<open>NodeBase\<close>: the flag at a
  sentinel's address has no meaning and no operation below reads it on a
  well-formed list. \<open>stderr\<close> collects the lines written by \<^verbatim>\<open>fprintf(stderr, ...)\<close>.
\<close>

type_synonym addr = nat

record heap =
  prev_f :: "addr \<Rightarrow> addr option"
  next_f :: "addr \<Rightarrow> addr option"
  is_linked_f :: "addr \<Rightarrow> bool"
  stderr :: "string list"

text \<open>
  \<open>AssertionFailed\<close> is a failing \<^verbatim>\<open>assert\<close>; \<open>NullPointer\<close> is a member access
  through \<^verbatim>\<open>nullptr\<close>. An \<^verbatim>\<open>assert\<close> is compiled out when \<^verbatim>\<open>NDEBUG\<close> is
  defined, so every operation takes the build flag \<open>ndebug\<close>.
\<close>

datatype error = AssertionFailed | NullPointer

definition assert_holds :: "bool \<Rightarrow> bool \<Rightarrow> bool" where
  "assert_holds ndebug c = (ndebug \<or> c)"

text \<open>A \<^verbatim>\<open>ListIterator\<close> is its field \<^verbatim>\<open>current_\<close>, a \<^verbatim>\<open>NodeBase*\<close>.\<close>

type_synonym iterator = "addr option"

subsection \<open>NodeBase\<close>

text \<open>
  Modelled from the spec: \<^verbatim>\<open>base_node.hpp\<close> (class \<^verbatim>\<open>NodeBase\<close>) is not among the
  sources. Its constructor leaves both pointers null, as the member initialisers
  \<^verbatim>\<open>prev_{nullptr}\<close>, \<^verbatim>\<open>next_{nullptr}\<close> of the prototype hook do.
\<close>

definition NodeBase :: "heap \<Rightarrow> addr \<Rightarrow> heap" where
  "NodeBase h self = h\<lparr>prev_f := (prev_f h)(self := None), next_f := (next_f h)(self := None)\<rparr>"

text \<open>
  Modelled from the spec: \<^verbatim>\<open>NodeBase::link_between_base\<close> is missing. The spec
  (4.1): "Sets \<^verbatim>\<open>self.prev=a, self.next=b, a.next=self, b.prev=self\<close>. No failure
  mode; pure pointer writes."
\<close>

definition link_between_base :: "heap \<Rightarrow> addr \<Rightarrow> addr \<Rightarrow> addr \<Rightarrow> heap" where
  "link_between_base h self a b =
     h\<lparr>prev_f := (prev_f h)(self \<mapsto> a, b \<mapsto> self),
       next_f := (next_f h)(self \<mapsto> b, a \<mapsto> self)\<rparr>"

text \<open>
  Modelled from the spec: \<^verbatim>\<open>NodeBase::unlink_base\<close> is missing. The spec (4.1):
  "given current \<^verbatim>\<open>prev\<close>/\<^verbatim>\<open>next\<close>, set \<^verbatim>\<open>prev.next = next; next.prev = prev\<close>."
  The node's own two pointers are left as they are.
\<close>

definition unlink_base :: "heap \<Rightarrow> addr \<Rightarrow> error + heap" where
  "unlink_base h self =
     (case prev_f h self of
        None \<Rightarrow> Inl NullPointer
      | Some p \<Rightarrow>
         (case next_f h self of
            None \<Rightarrow> Inl NullPointer
          | Some n \<Rightarrow> Inr (h\<lparr>next_f := (next_f h)(p \<mapsto> n), prev_f := (prev_f h)(n \<mapsto> p)\<rparr>)))"

text \<open>
  Modelled from the spec: \<^verbatim>\<open>NodeBase::transfer_range\<close> is missing. The spec (4.1):
  "detach the contiguous run \<^verbatim>\<open>[first, last)\<close> from its current ring and reinsert
  it, in the same relative order, immediately before \<^verbatim>\<open>destination_position\<close>",
  by "pointer rewrites (detach the run's neighbors to close the gap, then
  re-target the run's head/tail prev/next to the new neighbors)", "the run's
  internal links are untouched". The spec counts four rewrites; tying the run in
  also needs the destination's \<^verbatim>\<open>prev\<close> and its predecessor's \<^verbatim>\<open>next\<close>, so six
  fields are written here. The neighbours are read first: \<open>before\<close> is
  \<^verbatim>\<open>first->prev\<close>, \<open>tail\<close> is \<^verbatim>\<open>last->prev\<close> (the last node of the run), \<open>pprev\<close>
  is \<^verbatim>\<open>position->prev\<close>. Then \<open>before\<close> and \<open>last\<close> are joined, and the run is
  tied in between \<open>pprev\<close> and \<open>position\<close>. The spec describes pointer
  writes only ("No failure mode"), so there is no test for an empty run or for
  a destination that lies within the run.
\<close>

definition transfer_range :: "heap \<Rightarrow> iterator \<Rightarrow> iterator \<Rightarrow> iterator \<Rightarrow> error + heap" where
  "transfer_range h position first_it last_it =
     (case (position, first_it, last_it) of
        (Some pos, Some f, Some l) \<Rightarrow>
          (case (prev_f h f, prev_f h l, prev_f h pos) of
             (Some before, Some tail, Some pprev) \<Rightarrow>
               Inr (h\<lparr>next_f := (next_f h)(before \<mapsto> l, pprev \<mapsto> f, tail \<mapsto> pos),
                      prev_f := (prev_f h)(l \<mapsto> before, f \<mapsto> pprev, pos \<mapsto> tail)\<rparr>)
           | _ \<Rightarrow> Inl NullPointer)
      | _ \<Rightarrow> Inl NullPointer)"

subsection \<open>IntrusiveListNode\<close>

text \<open>The constructor: \<^verbatim>\<open>bool is_linked_{false}\<close> on top of a fresh \<^verbatim>\<open>NodeBase\<close>.\<close>

definition IntrusiveListNode :: "heap \<Rightarrow> addr \<Rightarrow> heap" where
  "IntrusiveListNode h self = (NodeBase h self)\<lparr>is_linked_f := (is_linked_f h)(self := False)\<rparr>"

definition is_linked :: "heap \<Rightarrow> addr \<Rightarrow> bool" where
  "is_linked h self = is_linked_f h self"

definition unlink :: "bool \<Rightarrow> heap \<Rightarrow> addr \<Rightarrow> error + heap" where
  "unlink ndebug h self =
     (if \<not> assert_holds ndebug (is_linked_f h self) then Inl AssertionFailed
      else case unlink_base h self of
             Inl e \<Rightarrow> Inl e
           | Inr h' \<Rightarrow> Inr (h'\<lparr>is_linked_f := (is_linked_f h')(self := False)\<rparr>))"

definition set_linked :: "heap \<Rightarrow> addr \<Rightarrow> heap" where
  "set_linked h self = h\<lparr>is_linked_f := (is_linked_f h)(self := True)\<rparr>"

definition link_between :: "heap \<Rightarrow> addr \<Rightarrow> addr \<Rightarrow> addr \<Rightarrow> heap" where
  "link_between h self p n = set_linked (link_between_base h self p n) self"

definition warning :: string where
  "warning = ''[ntrusive] : WARNING : destroying node still in list.. auto-unlinking..''"

text \<open>
  The destructor \<^verbatim>\<open>~IntrusiveListNode\<close>: the warning is printed only when
  \<^verbatim>\<open>NDEBUG\<close> is not defined.
\<close>

definition destroy :: "bool \<Rightarrow> heap \<Rightarrow> addr \<Rightarrow> error + heap" where
  "destroy ndebug h self =
     (if is_linked_f h self
      then unlink ndebug (if \<not> ndebug then h\<lparr>stderr := stderr h @ [warning]\<rparr> else h) self
      else Inr h)"

subsection \<open>ListIterator\<close>

definition incr :: "heap \<Rightarrow> iterator \<Rightarrow> error + iterator" where
  "incr h it = (case it of None \<Rightarrow> Inl NullPointer | Some c \<Rightarrow> Inr (next_f h c))"

definition decr :: "heap \<Rightarrow> iterator \<Rightarrow> error + iterator" where
  "decr h it = (case it of None \<Rightarrow> Inl NullPointer | Some c \<Rightarrow> Inr (prev_f h c))"

subsection \<open>IntrusiveList\<close>

text \<open>A list is given by the address \<open>s\<close> of its sentinel.\<close>

definition init_sentinel :: "heap \<Rightarrow> addr \<Rightarrow> heap" where
  "init_sentinel h s = h\<lparr>next_f := (next_f h)(s \<mapsto> s), prev_f := (prev_f h)(s \<mapsto> s)\<rparr>"

definition IntrusiveList :: "heap \<Rightarrow> addr \<Rightarrow> heap" where
  "IntrusiveList h s = init_sentinel (NodeBase h s) s"

definition empty_l :: "heap \<Rightarrow> addr \<Rightarrow> bool" where
  "empty_l h s = (next_f h s = Some s)"

definition begin_it :: "heap \<Rightarrow> addr \<Rightarrow> iterator" where
  "begin_it h s = next_f h s"

definition end_it :: "addr \<Rightarrow> iterator" where
  "end_it s = Some s"

definition insert_after :: "bool \<Rightarrow> heap \<Rightarrow> addr \<Rightarrow> addr \<Rightarrow> error + heap" where
  "insert_after ndebug h after node =
     (if \<not> assert_holds ndebug (\<not> is_linked h node) then Inl AssertionFailed
      else case next_f h after of
             None \<Rightarrow> Inl NullPointer
           | Some n \<Rightarrow> Inr (link_between h node after n))"

definition insert_before :: "bool \<Rightarrow> heap \<Rightarrow> iterator \<Rightarrow> addr \<Rightarrow> error + heap" where
  "insert_before ndebug h before node =
     (if \<not> assert_holds ndebug (\<not> is_linked h node) then Inl AssertionFailed
      else case before of
             None \<Rightarrow> Inl NullPointer
           | Some b \<Rightarrow>
              (case prev_f h b of
                 None \<Rightarrow> Inl NullPointer
               | Some p \<Rightarrow> Inr (link_between h node p b)))"

definition push_back :: "bool \<Rightarrow> heap \<Rightarrow> addr \<Rightarrow> addr \<Rightarrow> error + heap" where
  "push_back ndebug h s element = insert_before ndebug h (Some s) element"

definition push_front :: "bool \<Rightarrow> heap \<Rightarrow> addr \<Rightarrow> addr \<Rightarrow> error + heap" where
  "push_front ndebug h s element = insert_after ndebug h s element"

text \<open>\<open>insert_at\<close> is \<^verbatim>\<open>IntrusiveList::insert\<close>.\<close>

definition insert_at :: "bool \<Rightarrow> heap \<Rightarrow> addr \<Rightarrow> iterator \<Rightarrow> addr \<Rightarrow> error + (heap \<times> iterator)" where
  "insert_at ndebug h s pos element =
     (case insert_before ndebug h pos element of
        Inl e \<Rightarrow> Inl e
      | Inr h' \<Rightarrow> Inr (h', Some element))"

text \<open>
  The casts to \<^verbatim>\<open>node_type*\<close> in \<^verbatim>\<open>pop_front\<close>, \<^verbatim>\<open>pop_back\<close> and \<^verbatim>\<open>erase\<close> do
  nothing in the store; the pointer that is cast is dereferenced by
  \<^verbatim>\<open>unlink\<close>.
\<close>

definition pop_front :: "bool \<Rightarrow> heap \<Rightarrow> addr \<Rightarrow> error + heap" where
  "pop_front ndebug h s =
     (if \<not> assert_holds ndebug (\<not> empty_l h s) then Inl AssertionFailed
      else case next_f h s of None \<Rightarrow> Inl NullPointer | Some n \<Rightarrow> unlink ndebug h n)"

definition pop_back :: "bool \<Rightarrow> heap \<Rightarrow> addr \<Rightarrow> error + heap" where
  "pop_back ndebug h s =
     (if \<not> assert_holds ndebug (\<not> empty_l h s) then Inl AssertionFailed
      else case prev_f h s of None \<Rightarrow> Inl NullPointer | Some n \<Rightarrow> unlink ndebug h n)"

definition erase :: "bool \<Rightarrow> heap \<Rightarrow> addr \<Rightarrow> iterator \<Rightarrow> error + (heap \<times> iterator)" where
  "erase ndebug h s pos =
     (if \<not> assert_holds ndebug (pos \<noteq> end_it s) then Inl AssertionFailed
      else case pos of
             None \<Rightarrow> Inl NullPointer
           | Some node \<Rightarrow>
              (let nxt = next_f h node
               in case unlink ndebug h node of
                    Inl e \<Rightarrow> Inl e
                  | Inr h' \<Rightarrow> Inr (h', nxt)))"

text \<open>
  The loop of \<^verbatim>\<open>erase_range\<close> need not end (a \<^verbatim>\<open>last\<close> that is never reached),
  so the result is optional: \<open>None\<close> is a run that does not return.
\<close>

partial_function (option) erase_loop ::
  "bool \<Rightarrow> heap \<Rightarrow> addr \<Rightarrow> iterator \<Rightarrow> iterator \<Rightarrow> (error + (heap \<times> iterator)) option" where
  "erase_loop ndebug h s it stop =
     (if it \<noteq> stop
      then (case erase ndebug h s it of
              Inl e \<Rightarrow> Some (Inl e)
            | Inr (h', it') \<Rightarrow> erase_loop ndebug h' s it' stop)
      else Some (Inr (h, stop)))"

definition erase_range ::
  "bool \<Rightarrow> heap \<Rightarrow> addr \<Rightarrow> iterator \<Rightarrow> iterator \<Rightarrow> (error + (heap \<times> iterator)) option" where
  "erase_range ndebug h s first_it last_it = erase_loop ndebug h s first_it last_it"

definition splice_range :: "heap \<Rightarrow> addr \<Rightarrow> iterator \<Rightarrow> addr \<Rightarrow> iterator \<Rightarrow> iterator \<Rightarrow> error + heap" where
  "splice_range h s position other first_it last_it = transfer_range h position first_it last_it"

text \<open>\<open>splice_l\<close> is \<^verbatim>\<open>IntrusiveList::splice\<close>.\<close>

definition splice_l :: "heap \<Rightarrow> addr \<Rightarrow> iterator \<Rightarrow> addr \<Rightarrow> error + heap" where
  "splice_l h s position other =
     (if empty_l h other then Inr h
      else if s = other then Inr h
      else splice_range h s position other (begin_it h other) (end_it other))"

definition splice_cell :: "heap \<Rightarrow> addr \<Rightarrow> iterator \<Rightarrow> addr \<Rightarrow> iterator \<Rightarrow> error + heap" where
  "splice_cell h s position other element =
     (if element = end_it other then Inr h
      else case incr h element of
             Inl e \<Rightarrow> Inl e
           | Inr next_it \<Rightarrow> splice_range h s position other element next_it)"

text \<open>
  The loop of \<^verbatim>\<open>extract_front\<close> that finds the split point. \<^verbatim>\<open>count\<close> is a
  \<^verbatim>\<open>size_t\<close> that never exceeds \<^verbatim>\<open>max_cnt\<close>, so it cannot wrap.
\<close>

function find_split ::
  "heap \<Rightarrow> addr \<Rightarrow> iterator \<Rightarrow> nat \<Rightarrow> nat \<Rightarrow> error + (iterator \<times> nat)" where
  "find_split h s split_point count max_cnt =
     (if split_point \<noteq> end_it s \<and> count < max_cnt
      then (case incr h split_point of
              Inl e \<Rightarrow> Inl e
            | Inr it \<Rightarrow> find_split h s it (count + 1) max_cnt)
      else Inr (split_point, count))"
  by pat_completeness auto
termination
  by (relation "measure (\<lambda>(h, s, it, count, max_cnt). max_cnt - count)") auto

definition extract_front :: "heap \<Rightarrow> addr \<Rightarrow> addr \<Rightarrow> nat \<Rightarrow> error + (heap \<times> nat)" where
  "extract_front h s out max_cnt =
     (case find_split h s (begin_it h s) 0 max_cnt of
        Inl e \<Rightarrow> Inl e
      | Inr (split_point, count) \<Rightarrow>
          if count > 0
          then (case splice_range h out (end_it out) s (begin_it h s) split_point of
                  Inl e \<Rightarrow> Inl e
                | Inr h' \<Rightarrow> Inr (h', count))
          else Inr (h, count))"

text \<open>
  \<open>front_l\<close> and \<open>back_l\<close> are \<^verbatim>\<open>front\<close> and \<^verbatim>\<open>back\<close>: they return a reference to the object at
  \<^verbatim>\<open>*begin()\<close> and \<^verbatim>\<open>*(--end())\<close>: here, its address.
\<close>

definition front_l :: "bool \<Rightarrow> heap \<Rightarrow> addr \<Rightarrow> error + iterator" where
  "front_l ndebug h s =
     (if \<not> assert_holds ndebug (\<not> empty_l h s) then Inl AssertionFailed
      else Inr (begin_it h s))"

definition back_l :: "bool \<Rightarrow> heap \<Rightarrow> addr \<Rightarrow> error + iterator" where
  "back_l ndebug h s =
     (if \<not> assert_holds ndebug (\<not> empty_l h s) then Inl AssertionFailed
      else decr h (end_it s))"

text \<open>The result of \<^verbatim>\<open>try_pop_front\<close> is a pointer: \<open>None\<close> is \<^verbatim>\<open>nullptr\<close>.\<close>

definition try_pop_front :: "bool \<Rightarrow> heap \<Rightarrow> addr \<Rightarrow> error + (heap \<times> addr option)" where
  "try_pop_front ndebug h s =
     (if empty_l h s then Inr (h, None)
      else case front_l ndebug h s of
             Inl e \<Rightarrow> Inl e
           | Inr result \<Rightarrow>
              (case pop_front ndebug h s of
                 Inl e \<Rightarrow> Inl e
               | Inr h' \<Rightarrow> Inr (h', result)))"

definition try_pop_back :: "bool \<Rightarrow> heap \<Rightarrow> addr \<Rightarrow> error + (heap \<times> addr option)" where
  "try_pop_back ndebug h s =
     (if empty_l h s then Inr (h, None)
      else case back_l ndebug h s of
             Inl e \<Rightarrow> Inl e
           | Inr res \<Rightarrow>
              (case pop_back ndebug h s of
                 Inl e \<Rightarrow> Inl e
               | Inr h' \<Rightarrow> Inr (h', res)))"

subsection \<open>Traversal\<close>

text \<open>
  The forward walk is the loop of \<^verbatim>\<open>size()\<close> and of a range-\<^verbatim>\<open>for\<close>:
  \<^verbatim>\<open>for (it = begin(); it != end(); ++it)\<close>, visiting \<^verbatim>\<open>*it\<close>. The backward walk
  is the one of \<^verbatim>\<open>check_integrity\<close> in \<^verbatim>\<open>tests/unit.cc\<close>:
  \<^verbatim>\<open>it = end(); while (it != begin()) { --it; visit(*it); }\<close>. Neither need end on an
  arbitrary store, so the result is optional: \<open>None\<close> is a walk that never returns.
\<close>

partial_function (option) forward_loop ::
  "heap \<Rightarrow> addr \<Rightarrow> iterator \<Rightarrow> addr list \<Rightarrow> (error + addr list) option" where
  "forward_loop h s it acc =
     (if it \<noteq> end_it s
      then (case it of
              None \<Rightarrow> Some (Inl NullPointer)
            | Some c \<Rightarrow>
               (case incr h it of
                  Inl e \<Rightarrow> Some (Inl e)
                | Inr it' \<Rightarrow> forward_loop h s it' (acc @ [c])))
      else Some (Inr acc))"

definition forward :: "heap \<Rightarrow> addr \<Rightarrow> (error + addr list) option" where
  "forward h s = forward_loop h s (begin_it h s) []"

partial_function (option) backward_loop ::
  "heap \<Rightarrow> addr \<Rightarrow> iterator \<Rightarrow> addr list \<Rightarrow> (error + addr list) option" where
  "backward_loop h s it acc =
     (if it \<noteq> begin_it h s
      then (case decr h it of
              Inl e \<Rightarrow> Some (Inl e)
            | Inr it' \<Rightarrow>
               (case it' of
                  None \<Rightarrow> Some (Inl NullPointer)
                | Some c \<Rightarrow> backward_loop h s it' (acc @ [c])))
      else Some (Inr acc))"

definition backward :: "heap \<Rightarrow> addr \<Rightarrow> (error + addr list) option" where
  "backward h s = backward_loop h s (end_it s) []"

subsection \<open>Sequences of calls\<close>

text \<open>
  A call of the public interface, and a run of a list of calls that stops at the
  first failure. \<open>NewList\<close> and \<open>NewNode\<close> are the two constructors.
\<close>

datatype op =
    NewList addr
  | NewNode addr
  | PushBack addr addr
  | PushFront addr addr
  | Insert addr iterator addr
  | PopFront addr
  | PopBack addr
  | Erase addr iterator
  | Unlink addr
  | Splice addr iterator addr
  | SpliceCell addr iterator addr iterator
  | SpliceRange addr iterator addr iterator iterator

fun exec :: "bool \<Rightarrow> heap \<Rightarrow> op \<Rightarrow> error + heap" where
  "exec ndebug h (NewList s) = Inr (IntrusiveList h s)"
| "exec ndebug h (NewNode x) = Inr (IntrusiveListNode h x)"
| "exec ndebug h (PushBack s x) = push_back ndebug h s x"
| "exec ndebug h (PushFront s x) = push_front ndebug h s x"
| "exec ndebug h (Insert s pos x) =
     (case insert_at ndebug h s pos x of Inl e \<Rightarrow> Inl e | Inr (h', it) \<Rightarrow> Inr h')"
| "exec ndebug h (PopFront s) = pop_front ndebug h s"
| "exec ndebug h (PopBack s) = pop_back ndebug h s"
| "exec ndebug h (Erase s pos) =
     (case erase ndebug h s pos of Inl e \<Rightarrow> Inl e | Inr (h', it) \<Rightarrow> Inr h')"
| "exec ndebug h (Unlink x) = unlink ndebug h x"
| "exec ndebug h (Splice s pos other) = splice_l h s pos other"
| "exec ndebug h (SpliceCell s pos other element) = splice_cell h s pos other element"
| "exec ndebug h (SpliceRange s pos other first_it last_it) =
     splice_range h s pos other first_it last_it"

fun exec_all :: "bool \<Rightarrow> heap \<Rightarrow> op list \<Rightarrow> error + heap" where
  "exec_all ndebug h [] = Inr h"
| "exec_all ndebug h (c # cs) =
     (case exec ndebug h c of Inl e \<Rightarrow> Inl e | Inr h' \<Rightarrow> exec_all ndebug h' cs)"

section \<open>What a store represents\<close>

text \<open>
  \<open>chain f a xs b\<close>: following the pointer field \<open>f\<close> from \<open>a\<close> visits exactly
  \<open>xs\<close>, in order, and then arrives at \<open>b\<close>.
\<close>

fun chain :: "(addr \<Rightarrow> addr option) \<Rightarrow> addr \<Rightarrow> addr list \<Rightarrow> addr \<Rightarrow> bool" where
  "chain f a [] b = (f a = Some b)"
| "chain f a (x # xs) b = (f a = Some x \<and> chain f x xs b)"

text \<open>
  \<open>list_at h s xs\<close>: in the store \<open>h\<close> the list with sentinel \<open>s\<close> holds the
  elements \<open>xs\<close>, first to last. The \<^verbatim>\<open>next_\<close> pointers lead from the sentinel
  through \<open>xs\<close> back to the sentinel, the \<^verbatim>\<open>prev_\<close> pointers lead through
  \<open>rev xs\<close>, no object occurs twice, and every element is flagged linked.
\<close>

definition list_at :: "heap \<Rightarrow> addr \<Rightarrow> addr list \<Rightarrow> bool" where
  "list_at h s xs =
     (distinct (s # xs) \<and> chain (next_f h) s xs s \<and> chain (prev_f h) s (rev xs) s
      \<and> list_all (is_linked_f h) xs)"

text \<open>
  The iterator at the head of the remainder \<open>bs\<close> of a list with sentinel \<open>s\<close>:
  \<^verbatim>\<open>end()\<close> when nothing remains. Every valid position of a list holding
  \<open>as @ bs\<close> is \<open>it_at s bs\<close> for one such split.
\<close>

definition it_at :: "addr \<Rightarrow> addr list \<Rightarrow> iterator" where
  "it_at s bs = (case bs of [] \<Rightarrow> end_it s | b # _ \<Rightarrow> Some b)"


text \<open>
  The lists of a program, by sentinel address, each with its elements.
  \<open>well_formed h M\<close>: the store holds exactly these lists, no object (sentinel or
  element) belongs to two of them, and an object is flagged linked only if it is
  an element of one of them.
\<close>

type_synonym lists = "addr \<Rightarrow> addr list option"

definition well_formed :: "heap \<Rightarrow> lists \<Rightarrow> bool" where
  "well_formed h M =
     ((\<forall>s xs. M s = Some xs \<longrightarrow> list_at h s xs)
      \<and> (\<forall>s t xs ys. M s = Some xs \<longrightarrow> M t = Some ys \<longrightarrow> s \<noteq> t
            \<longrightarrow> set (s # xs) \<inter> set (t # ys) = {})
      \<and> (\<forall>a. is_linked_f h a \<longrightarrow> (\<exists>s xs. M s = Some xs \<and> a \<in> set xs)))"

text \<open>An address that is neither a sentinel nor an element of any list.\<close>

definition fresh :: "lists \<Rightarrow> addr \<Rightarrow> bool" where
  "fresh M a = (\<forall>s xs. M s = Some xs \<longrightarrow> a \<notin> set (s # xs))"

text \<open>
  The contract of the interface on the element sequences: \<open>astep M c M'\<close> when
  the call \<open>c\<close> is made within its precondition on the lists \<open>M\<close> (an element
  to link is in no list, a position belongs to the list it is passed to, a list
  to pop from is not empty) and the lists are \<open>M'\<close> afterwards. For
  \<^verbatim>\<open>splice_cell\<close> and \<^verbatim>\<open>splice_range\<close> the run \<^verbatim>\<open>[first, last)\<close> is a non-empty run
  of \<^verbatim>\<open>other\<close> (or the element is \<^verbatim>\<open>other.end()\<close>, where \<^verbatim>\<open>splice_cell\<close> returns at
  once); when \<^verbatim>\<open>other\<close> is the list itself the position lies outside the run and is
  not \<^verbatim>\<open>last\<close>: it is at an element before \<^verbatim>\<open>first\<close> (the rules named \<open>before\<close>) or
  after \<^verbatim>\<open>last\<close> (the rules named \<open>after\<close>).
\<close>

inductive astep :: "lists \<Rightarrow> op \<Rightarrow> lists \<Rightarrow> bool" where
  new_list: "fresh M s \<Longrightarrow> astep M (NewList s) (M(s \<mapsto> []))"
| new_node: "fresh M x \<Longrightarrow> astep M (NewNode x) M"
| push_back: "M s = Some xs \<Longrightarrow> fresh M x \<Longrightarrow> astep M (PushBack s x) (M(s \<mapsto> xs @ [x]))"
| push_front: "M s = Some xs \<Longrightarrow> fresh M x \<Longrightarrow> astep M (PushFront s x) (M(s \<mapsto> x # xs))"
| insert: "M s = Some (as @ bs) \<Longrightarrow> fresh M x
            \<Longrightarrow> astep M (Insert s (it_at s bs) x) (M(s \<mapsto> as @ x # bs))"
| pop_front: "M s = Some (x # xs) \<Longrightarrow> astep M (PopFront s) (M(s \<mapsto> xs))"
| pop_back: "M s = Some (xs @ [x]) \<Longrightarrow> astep M (PopBack s) (M(s \<mapsto> xs))"
| erase: "M s = Some (as @ x # bs) \<Longrightarrow> astep M (Erase s (Some x)) (M(s \<mapsto> as @ bs))"
| unlink: "M s = Some (as @ x # bs) \<Longrightarrow> astep M (Unlink x) (M(s \<mapsto> as @ bs))"
| splice: "M s = Some (as @ bs) \<Longrightarrow> M t = Some ys \<Longrightarrow> s \<noteq> t
            \<Longrightarrow> astep M (Splice s (it_at s bs) t) (M(s \<mapsto> as @ ys @ bs, t \<mapsto> []))"
| splice_self: "M s = Some xs \<Longrightarrow> astep M (Splice s pos s) M"
| splice_cell_end: "M t = Some ys \<Longrightarrow> astep M (SpliceCell s pos t (end_it t)) M"
| splice_cell: "M s = Some (as @ bs) \<Longrightarrow> M t = Some (cs @ x # es) \<Longrightarrow> s \<noteq> t
            \<Longrightarrow> astep M (SpliceCell s (it_at s bs) t (Some x)) (M(s \<mapsto> as @ x # bs, t \<mapsto> cs @ es))"
| splice_cell_before: "M s = Some (as @ bs @ x # es) \<Longrightarrow> bs \<noteq> []
            \<Longrightarrow> astep M (SpliceCell s (it_at s (bs @ x # es)) s (Some x)) (M(s \<mapsto> as @ x # bs @ es))"
| splice_cell_after: "M s = Some (as @ x # ds @ es) \<Longrightarrow> ds \<noteq> []
            \<Longrightarrow> astep M (SpliceCell s (it_at s es) s (Some x)) (M(s \<mapsto> as @ ds @ x # es))"
| splice_range: "M s = Some (as @ bs) \<Longrightarrow> M t = Some (cs @ ds @ es) \<Longrightarrow> s \<noteq> t \<Longrightarrow> ds \<noteq> []
            \<Longrightarrow> astep M (SpliceRange s (it_at s bs) t (it_at t (ds @ es)) (it_at t es))
                  (M(s \<mapsto> as @ ds @ bs, t \<mapsto> cs @ es))"
| splice_range_before: "M s = Some (as @ bs @ ds @ es) \<Longrightarrow> bs \<noteq> [] \<Longrightarrow> ds \<noteq> []
            \<Longrightarrow> astep M (SpliceRange s (it_at s (bs @ ds @ es)) s (it_at s (ds @ es)) (it_at s es))
                  (M(s \<mapsto> as @ ds @ bs @ es))"
| splice_range_after: "M s = Some (as @ bs @ ds @ es) \<Longrightarrow> bs \<noteq> [] \<Longrightarrow> ds \<noteq> []
            \<Longrightarrow> astep M (SpliceRange s (it_at s es) s (it_at s (bs @ ds @ es)) (it_at s (ds @ es)))
                  (M(s \<mapsto> as @ ds @ bs @ es))"

inductive asteps :: "lists \<Rightarrow> op list \<Rightarrow> lists \<Rightarrow> bool" where
  nil: "asteps M [] M"
| cons: "astep M c M1 \<Longrightarrow> asteps M1 cs M2 \<Longrightarrow> asteps M (c # cs) M2"

subsection \<open>Example stores\<close>

text \<open>
  \<open>ex_heap\<close>: one list, sentinel at 0, holding the elements at 1 and 2.
  \<open>ex_rotated\<close>: the same list holding 2 and then 1. \<open>ex_empty\<close>: no object
  at all.
\<close>

definition ex_empty :: heap where
  "ex_empty = \<lparr>prev_f = (\<lambda>a. None), next_f = (\<lambda>a. None), is_linked_f = (\<lambda>a. False), stderr = []\<rparr>"

definition ex_heap :: heap where
  "ex_heap = \<lparr>prev_f = (\<lambda>a. None)(0 \<mapsto> 2, 1 \<mapsto> 0, 2 \<mapsto> 1),
              next_f = (\<lambda>a. None)(0 \<mapsto> 1, 1 \<mapsto> 2, 2 \<mapsto> 0),
              is_linked_f = (\<lambda>a. a = 1 \<or> a = 2), stderr = []\<rparr>"

definition ex_lists :: lists where
  "ex_lists = (\<lambda>s. None)(0 \<mapsto> [1, 2])"

definition ex_rotated :: heap where
  "ex_rotated = \<lparr>prev_f = (\<lambda>a. None)(0 \<mapsto> 1, 1 \<mapsto> 2, 2 \<mapsto> 0),
                 next_f = (\<lambda>a. None)(0 \<mapsto> 2, 1 \<mapsto> 0, 2 \<mapsto> 1),
                 is_linked_f = (\<lambda>a. a = 1 \<or> a = 2), stderr = []\<rparr>"

text \<open>
  \<open>ex_two\<close>: two lists, the one at 0 holding 1 and 2, the one at 3 holding 4.
  \<open>ex_ops\<close>: a run of calls that starts from \<open>ex_empty\<close>.
\<close>

definition ex_two :: heap where
  "ex_two = \<lparr>prev_f = (\<lambda>a. None)(0 \<mapsto> 2, 1 \<mapsto> 0, 2 \<mapsto> 1, 3 \<mapsto> 4, 4 \<mapsto> 3),
             next_f = (\<lambda>a. None)(0 \<mapsto> 1, 1 \<mapsto> 2, 2 \<mapsto> 0, 3 \<mapsto> 4, 4 \<mapsto> 3),
             is_linked_f = (\<lambda>a. a = 1 \<or> a = 2 \<or> a = 4), stderr = []\<rparr>"

definition ex_two_lists :: lists where
  "ex_two_lists = (\<lambda>s. None)(0 \<mapsto> [1, 2], 3 \<mapsto> [4])"




definition ex_detached :: heap where
  "ex_detached = \<lparr>prev_f = (\<lambda>a. None)(0 \<mapsto> 0, 1 \<mapsto> 2, 2 \<mapsto> 1),
                  next_f = (\<lambda>a. None)(0 \<mapsto> 0, 1 \<mapsto> 2, 2 \<mapsto> 1),
                  is_linked_f = (\<lambda>a. a = 1 \<or> a = 2), stderr = []\<rparr>"

section \<open>Pointer chains\<close>

lemma it_at_hd: "it_at s bs = Some (hd (bs @ [s]))"
  by (cases bs) (simp_all add: it_at_def end_it_def)

lemma chain_append: "chain f a (xs @ y # ys) b = (chain f a xs y \<and> chain f y ys b)"
  by (induction xs arbitrary: a) auto

lemma chain_upd_other: "u \<notin> set (a # xs) \<Longrightarrow> chain (f(u := v)) a xs b = chain f a xs b"
  by (induction xs arbitrary: a) auto

lemma chain_last: "chain f a xs b \<Longrightarrow> f (last (a # xs)) = Some b"
  by (induction xs arbitrary: a) auto

lemma chain_hd: "chain f a xs b \<Longrightarrow> f a = Some (hd (xs @ [b]))"
  by (cases xs) auto

lemma chain_redirect:
  "distinct (a # xs) \<Longrightarrow> chain f a xs b \<Longrightarrow> chain (f(last (a # xs) \<mapsto> c)) a xs c"
  by (induction xs arbitrary: a) auto

lemma chain_rehead:
  "chain f a xs b \<Longrightarrow> a' \<notin> set xs \<Longrightarrow> chain (f(a' \<mapsto> hd (xs @ [b]))) a' xs b"
  by (cases xs) (auto simp: chain_upd_other)

lemma chain_init: "chain f a (as @ bs) b \<Longrightarrow> chain f a as (hd (bs @ [b]))"
  by (cases bs) (auto simp: chain_append)

lemma chain_tail: "chain f a (as @ bs) b \<Longrightarrow> chain f (last (a # as)) bs b"
  by (induction as arbitrary: a) auto

lemma chain_glue:
  "chain f a as (hd (bs @ [b])) \<Longrightarrow> (bs \<noteq> [] \<Longrightarrow> chain f (hd bs) (tl bs) b) \<Longrightarrow> chain f a (as @ bs) b"
  by (cases bs) (auto simp: chain_append)

lemma last_rev_hd: "last (s # rev bs) = hd (bs @ [s])"
  by (cases bs) auto

lemma hd_rev_last: "hd (rev as @ [s]) = last (s # as)"
  by (induction as rule: rev_induct) auto

lemma chain_insert:
  assumes c: "chain f s (as @ bs) s" and d: "distinct (s # as @ bs)" and x: "x \<notin> set (s # as @ bs)"
  shows "chain (f(x \<mapsto> hd (bs @ [s]), last (s # as) \<mapsto> x)) s (as @ x # bs) s"
proof -
  let ?q = "hd (bs @ [s])" and ?p = "last (s # as)"
  have pin: "?p \<in> set (s # as)" by (rule last_in_set) simp
  have "chain f s as ?q" using c by (rule chain_init)
  then have "chain (f(x \<mapsto> ?q)) s as ?q" using x by (simp add: chain_upd_other)
  moreover have "distinct (s # as)" using d by simp
  ultimately have a: "chain (f(x \<mapsto> ?q, ?p \<mapsto> x)) s as x" by (metis chain_redirect)
  have "chain f ?p bs s" using c by (rule chain_tail)
  then have "chain (f(x \<mapsto> ?q)) x bs s" using x by (intro chain_rehead) auto
  moreover have "?p \<notin> set (x # bs)" using pin d x by auto
  ultimately have b: "chain (f(x \<mapsto> ?q, ?p \<mapsto> x)) x bs s" by (metis chain_upd_other)
  show ?thesis using a b by (simp only: chain_append)
qed

lemma chain_remove:
  assumes c: "chain f s (as @ x # bs) s" and d: "distinct (s # as @ x # bs)"
  shows "chain (f(last (s # as) \<mapsto> hd (bs @ [s]))) s (as @ bs) s"
proof -
  let ?q = "hd (bs @ [s])" and ?p = "last (s # as)"
  have pin: "?p \<in> set (s # as)" by (rule last_in_set) simp
  have "chain f s as x" using c by (simp add: chain_append)
  moreover have "distinct (s # as)" using d by simp
  ultimately have a: "chain (f(?p \<mapsto> ?q)) s as ?q" by (metis chain_redirect)
  have b: "chain (f(?p \<mapsto> ?q)) (hd bs) (tl bs) s" if "bs \<noteq> []"
  proof -
    from that obtain n r where bs: "bs = n # r" by (cases bs) auto
    have "chain f n r s" using c by (simp add: chain_append bs)
    moreover have "?p \<notin> set (n # r)" using pin d bs by auto
    ultimately have "chain (f(?p \<mapsto> ?q)) n r s" by (metis chain_upd_other)
    then show ?thesis by (simp add: bs)
  qed
  show ?thesis using a b by (rule chain_glue)
qed

lemma list_at_prev:
  assumes "list_at h s (as @ bs)"
  shows "prev_f h (hd (bs @ [s])) = Some (last (s # as))"
proof -
  have "chain (prev_f h) s (rev bs @ rev as) s" using assms by (simp add: list_at_def)
  then have "chain (prev_f h) (last (s # rev bs)) (rev as) s" by (rule chain_tail)
  then have "prev_f h (last (s # rev bs)) = Some (hd (rev as @ [s]))" by (rule chain_hd)
  then show ?thesis by (simp only: last_rev_hd hd_rev_last)
qed

lemma list_at_next:
  assumes "list_at h s (as @ bs)"
  shows "next_f h (last (s # as)) = Some (hd (bs @ [s]))"
proof -
  have "chain (next_f h) s (as @ bs) s" using assms by (simp add: list_at_def)
  then have "chain (next_f h) (last (s # as)) bs s" by (rule chain_tail)
  then show ?thesis by (rule chain_hd)
qed

lemma list_at_link_between:
  assumes l: "list_at h s (as @ bs)" and xs: "x \<noteq> s" and xl: "\<not> is_linked_f h x"
  shows "list_at (link_between h x (last (s # as)) (hd (bs @ [s]))) s (as @ x # bs)"
proof -
  let ?q = "hd (bs @ [s])" and ?p = "last (s # as)"
  let ?h = "link_between h x ?p ?q"
  have fl: "list_all (is_linked_f h) (as @ bs)" and d: "distinct (s # as @ bs)"
    and cn: "chain (next_f h) s (as @ bs) s" and cp: "chain (prev_f h) s (rev bs @ rev as) s"
    using l by (simp_all add: list_at_def)
  have xn: "x \<notin> set (s # as @ bs)" using fl xs xl by (auto simp: list_all_iff)
  have nf: "next_f ?h = (next_f h)(x \<mapsto> ?q, ?p \<mapsto> x)"
    and pf: "prev_f ?h = (prev_f h)(x \<mapsto> ?p, ?q \<mapsto> x)"
    and lf: "is_linked_f ?h = (is_linked_f h)(x := True)"
    by (simp_all add: link_between_def set_linked_def link_between_base_def)
  have 1: "chain (next_f ?h) s (as @ x # bs) s"
    unfolding nf using cn d xn by (rule chain_insert)
  have "chain ((prev_f h)(x \<mapsto> hd (rev as @ [s]), last (s # rev bs) \<mapsto> x)) s (rev bs @ x # rev as) s"
    using cp by (rule chain_insert) (use d xn in auto)
  then have 2: "chain (prev_f ?h) s (rev (as @ x # bs)) s"
    unfolding pf by (simp only: last_rev_hd hd_rev_last rev_append rev.simps append.simps append_assoc)
  have 3: "list_all (is_linked_f ?h) (as @ x # bs)"
    unfolding lf using fl by (auto simp: list_all_iff)
  have 4: "distinct (s # as @ x # bs)" using d xn by auto
  show ?thesis unfolding list_at_def using 1 2 3 4 by blast
qed

lemma insert_before_list_at:
  assumes l: "list_at h s (as @ bs)" and xs: "x \<noteq> s" and xl: "\<not> is_linked_f h x"
  shows "insert_before nd h (it_at s bs) x = Inr (link_between h x (last (s # as)) (hd (bs @ [s])))"
  using list_at_prev[OF l] xl
  by (simp add: insert_before_def it_at_hd assert_holds_def is_linked_def)

lemma list_at_unlink:
  assumes l: "list_at h s (as @ x # bs)"
  shows "\<exists>h'. unlink nd h x = Inr h' \<and> list_at h' s (as @ bs) \<and> \<not> is_linked_f h' x
           \<and> next_f h' = (next_f h)(last (s # as) \<mapsto> hd (bs @ [s]))
           \<and> prev_f h' = (prev_f h)(hd (bs @ [s]) \<mapsto> last (s # as))
           \<and> is_linked_f h' = (is_linked_f h)(x := False) \<and> stderr h' = stderr h"
proof -
  let ?q = "hd (bs @ [s])" and ?p = "last (s # as)"
  have fl: "list_all (is_linked_f h) (as @ x # bs)" and d: "distinct (s # as @ x # bs)"
    and cn: "chain (next_f h) s (as @ x # bs) s" and cp: "chain (prev_f h) s (rev bs @ x # rev as) s"
    using l by (simp_all add: list_at_def)
  have px: "prev_f h x = Some ?p" using list_at_prev[of h s as "x # bs"] l by simp
  have nx: "next_f h x = Some ?q" using list_at_next[of h s "as @ [x]" bs] l by simp
  define h' where "h' = h\<lparr>next_f := (next_f h)(?p \<mapsto> ?q), prev_f := (prev_f h)(?q \<mapsto> ?p),
                           is_linked_f := (is_linked_f h)(x := False)\<rparr>"
  have u: "unlink nd h x = Inr h'" using fl px nx
    by (simp add: unlink_def unlink_base_def assert_holds_def h'_def)
  have 1: "chain (next_f h') s (as @ bs) s"
    using chain_remove[OF cn d] by (simp add: h'_def)
  have "chain ((prev_f h)(last (s # rev bs) \<mapsto> hd (rev as @ [s]))) s (rev bs @ rev as) s"
    using cp by (rule chain_remove) (use d in auto)
  then have 2: "chain (prev_f h') s (rev (as @ bs)) s"
    by (simp add: h'_def last_rev_hd hd_rev_last del: last.simps)
  have 3: "list_all (is_linked_f h') (as @ bs)"
    using fl d by (auto simp: list_all_iff h'_def)
  have 4: "distinct (s # as @ bs)" using d by auto
  have "list_at h' s (as @ bs)" unfolding list_at_def using 1 2 3 4 by blast
  then show ?thesis using u by (auto simp: h'_def)
qed

lemma chain_cong: "(\<forall>u\<in>set (a # xs). f' u = f u) \<Longrightarrow> chain f' a xs b = chain f a xs b"
  by (induction xs arbitrary: a) auto

lemma list_at_frame:
  assumes "list_at h t ys"
    and "\<forall>a\<in>set (t # ys). next_f h' a = next_f h a \<and> prev_f h' a = prev_f h a"
    and "\<forall>a\<in>set ys. is_linked_f h' a = is_linked_f h a"
  shows "list_at h' t ys"
proof -
  have "chain (next_f h') t ys t = chain (next_f h) t ys t"
    by (rule chain_cong) (use assms(2) in auto)
  moreover have "chain (prev_f h') t (rev ys) t = chain (prev_f h) t (rev ys) t"
    by (rule chain_cong) (use assms(2) in auto)
  moreover have "list_all (is_linked_f h') ys = list_all (is_linked_f h) ys"
    using assms(3) by (auto simp: list_all_iff)
  ultimately show ?thesis using assms(1) by (simp add: list_at_def)
qed

lemma last_in: "last (s # as) \<in> set (s # as)"
  by (rule last_in_set) simp

lemma hd_in: "hd (bs @ [s]) \<in> set (s # bs)"
  by (cases bs) auto

lemma chain_transfer_src:
  assumes c: "chain f t (cs @ ds @ es) t" and ne: "ds \<noteq> []"
    and d: "distinct (t # cs @ ds @ es)"
    and p: "p \<notin> set (t # cs @ es)" and tl: "last ds \<notin> set (t # cs @ es)"
  shows "chain (f(last (t # cs) \<mapsto> hd (es @ [t]), p \<mapsto> y, last ds \<mapsto> z)) t (cs @ es) t"
proof -
  define l where "l = hd (es @ [t])"
  define b where "b = last (t # cs)"
  let ?f1 = "f(b \<mapsto> l)"
  have bin: "b \<in> set (t # cs)" unfolding b_def by (rule last_in)
  have "chain f t cs (hd ((ds @ es) @ [t]))" using c by (rule chain_init)
  moreover have "distinct (t # cs)" using d by simp
  ultimately have a: "chain ?f1 t cs (hd (es @ [t]))" unfolding b_def l_def by (metis chain_redirect)
  have b: "chain ?f1 (hd es) (tl es) t" if "es \<noteq> []"
  proof -
    from that obtain n r where es: "es = n # r" by (cases es) auto
    have "chain f (last (t # cs @ ds)) es t" using c chain_tail[of f t "cs @ ds" es t] by simp
    then have "chain f n r t" by (simp add: es)
    moreover have "b \<notin> set (n # r)" using bin d es by auto
    ultimately have "chain ?f1 n r t" by (metis chain_upd_other)
    then show ?thesis by (simp add: es)
  qed
  have "chain ?f1 t (cs @ es) t" using a b by (rule chain_glue)
  then have "chain (?f1(p \<mapsto> y)) t (cs @ es) t" using p by (metis chain_upd_other)
  then have "chain (?f1(p \<mapsto> y, last ds \<mapsto> z)) t (cs @ es) t" using tl by (metis chain_upd_other)
  then show ?thesis unfolding b_def l_def .
qed

lemma chain_transfer_dst:
  assumes cs: "chain f s (as @ bs) s" and ds: "distinct (s # as @ bs)"
    and c: "chain f t (cs @ ds @ es) t" and ne: "ds \<noteq> []"
    and d: "distinct (t # cs @ ds @ es)"
    and dj: "set (s # as @ bs) \<inter> set (t # cs @ ds @ es) = {}"
  shows "chain (f(last (t # cs) \<mapsto> y, last (s # as) \<mapsto> hd ds, last ds \<mapsto> hd (bs @ [s])))
           s (as @ ds @ bs) s"
proof -
  define b where "b = last (t # cs)"
  define p where "p = last (s # as)"
  define q where "q = hd (bs @ [s])"
  define e where "e = last ds"
  let ?f1 = "f(b \<mapsto> y)" let ?f2 = "?f1(p \<mapsto> hd ds)" let ?f3 = "?f2(e \<mapsto> q)"
  obtain x dr where dsx: "ds = x # dr" using ne by (cases ds) auto
  have bin: "b \<in> set (t # cs)" unfolding b_def by (rule last_in)
  have pin: "p \<in> set (s # as)" unfolding p_def by (rule last_in)
  have lin: "e \<in> set ds" unfolding e_def using ne by simp
  have bs: "b \<notin> set (s # as @ bs)" using bin dj by auto
  have bd: "b \<notin> set ds" using bin d by auto
  have ps: "p \<notin> set (t # cs @ ds @ es)" using pin dj by auto
  have pb: "p \<notin> set bs" using pin ds by auto
  have es: "e \<notin> set (s # as @ bs)" using lin dj by auto
  have "chain f s as q" unfolding q_def using cs by (rule chain_init)
  then have "chain ?f1 s as q" using bs by (subst chain_upd_other) simp_all
  moreover have "distinct (s # as)" using ds by simp
  ultimately have "chain ?f2 s as (hd ds)" unfolding p_def by (metis chain_redirect)
  then have 1: "chain ?f3 s as x" using es dsx by (subst chain_upd_other) simp_all
  have "chain f x (dr @ es) t" using c by (simp add: dsx chain_append)
  then have "chain f x dr (hd (es @ [t]))" by (rule chain_init)
  then have "chain ?f1 x dr (hd (es @ [t]))" using bd dsx by (subst chain_upd_other) simp_all
  then have "chain ?f2 x dr (hd (es @ [t]))" using ps dsx by (subst chain_upd_other) simp_all
  moreover have "distinct (x # dr)" using d dsx by simp
  ultimately have 2: "chain ?f3 x dr q" unfolding dsx e_def by (metis chain_redirect)
  have 3: "chain ?f3 (hd bs) (tl bs) s" if "bs \<noteq> []"
  proof -
    from that obtain n r where bsn: "bs = n # r" by (cases bs) auto
    have "chain f p bs s" unfolding p_def using cs by (rule chain_tail)
    then have "chain f n r s" by (simp add: bsn)
    then have "chain ?f1 n r s" using bs bsn by (subst chain_upd_other) simp_all
    then have "chain ?f2 n r s" using pb bsn by (subst chain_upd_other) simp_all
    then have "chain ?f3 n r s" using es bsn by (subst chain_upd_other) simp_all
    then show ?thesis by (simp add: bsn)
  qed
  have "chain ?f3 x (dr @ bs) s" unfolding q_def[symmetric] using 2 3 unfolding q_def by (rule chain_glue)
  then have "chain ?f3 s (as @ ds @ bs) s" using 1 by (simp add: dsx chain_append)
  then show ?thesis unfolding b_def p_def q_def e_def .
qed

lemma list_at_transfer:
  assumes ls: "list_at h s (as @ bs)" and lt: "list_at h t (cs @ ds @ es)" and ne: "ds \<noteq> []"
    and dj: "set (s # as @ bs) \<inter> set (t # cs @ ds @ es) = {}"
  shows "\<exists>h'. transfer_range h (it_at s bs) (Some (hd ds)) (it_at t es) = Inr h'
           \<and> list_at h' s (as @ ds @ bs) \<and> list_at h' t (cs @ es)
           \<and> is_linked_f h' = is_linked_f h \<and> stderr h' = stderr h
           \<and> (\<forall>a. a \<notin> set (s # as @ bs) \<union> set (t # cs @ ds @ es)
                 \<longrightarrow> next_f h' a = next_f h a \<and> prev_f h' a = prev_f h a)"
proof -
  define b where "b = last (t # cs)"
  define p where "p = last (s # as)"
  define q where "q = hd (bs @ [s])"
  define e where "e = last ds"
  define f where "f = hd ds"
  define l where "l = hd (es @ [t])"
  define h' where "h' = h\<lparr>next_f := (next_f h)(b \<mapsto> l, p \<mapsto> f, e \<mapsto> q),
                           prev_f := (prev_f h)(l \<mapsto> b, f \<mapsto> p, q \<mapsto> e)\<rparr>"
  have fls: "list_all (is_linked_f h) (as @ bs)" and dss: "distinct (s # as @ bs)"
    and cns: "chain (next_f h) s (as @ bs) s" and cps: "chain (prev_f h) s (rev bs @ rev as) s"
    using ls by (simp_all add: list_at_def)
  have flt: "list_all (is_linked_f h) (cs @ ds @ es)" and dst: "distinct (t # cs @ ds @ es)"
    and cnt: "chain (next_f h) t (cs @ ds @ es) t"
    and cpt: "chain (prev_f h) t (rev es @ rev ds @ rev cs) t"
    using lt by (simp_all add: list_at_def)
  have bin: "b \<in> set (t # cs)" unfolding b_def by (rule last_in)
  have pin: "p \<in> set (s # as)" unfolding p_def by (rule last_in)
  have qin: "q \<in> set (s # bs)" unfolding q_def by (rule hd_in)
  have lin: "l \<in> set (t # es)" unfolding l_def by (rule hd_in)
  have ein: "e \<in> set ds" unfolding e_def using ne by simp
  have fin: "f \<in> set ds" unfolding f_def using ne by simp
  have pf: "prev_f h f = Some b"
    using list_at_prev[of h t cs "ds @ es"] lt ne by (simp add: f_def b_def)
  have pl: "prev_f h l = Some e"
    using list_at_prev[of h t "cs @ ds" es] lt ne by (simp add: l_def e_def)
  have pq: "prev_f h q = Some p"
    using list_at_prev[OF ls] by (simp add: q_def p_def)
  have tr: "transfer_range h (it_at s bs) (Some (hd ds)) (it_at t es) = Inr h'"
    using pf pl pq by (simp add: transfer_range_def it_at_hd h'_def f_def[symmetric] l_def[symmetric] q_def[symmetric])
  have fq: "f \<noteq> q" using fin qin dj by auto
  have n1: "chain (next_f h') s (as @ ds @ bs) s"
    using chain_transfer_dst[OF cns dss cnt ne dst dj, of l]
    by (simp add: h'_def b_def p_def q_def e_def f_def)
  have pnt: "p \<notin> set (t # cs @ es)" using pin dj by auto
  have ent: "last ds \<notin> set (t # cs @ es)" using ein dst unfolding e_def by auto
  have n2: "chain (next_f h') t (cs @ es) t"
    using chain_transfer_src[OF cnt ne dst pnt ent, of f q]
    by (simp add: h'_def b_def l_def e_def)
  have dj': "set (s # rev bs @ rev as) \<inter> set (t # rev es @ rev ds @ rev cs) = {}"
    using dj by auto
  have "chain ((prev_f h)(last (t # rev es) \<mapsto> b, last (s # rev bs) \<mapsto> hd (rev ds),
                  last (rev ds) \<mapsto> hd (rev as @ [s]))) s (rev bs @ rev ds @ rev as) s"
    by (rule chain_transfer_dst[OF cps _ cpt _ _ dj']) (use dss dst ne in auto)
  then have "chain ((prev_f h)(l \<mapsto> b, q \<mapsto> e, f \<mapsto> p)) s (rev bs @ rev ds @ rev as) s"
    using ne by (simp only: last_rev_hd hd_rev_last last_rev hd_rev l_def q_def e_def f_def p_def)
  then have p1: "chain (prev_f h') s (rev (as @ ds @ bs)) s"
    using fq by (simp add: h'_def fun_upd_twist)
  have qnt: "q \<notin> set (t # rev es @ rev cs)" using qin dj by auto
  have "f \<notin> set (t # rev es @ rev cs)" using fin dst by auto
  then have fnt: "last (rev ds) \<notin> set (t # rev es @ rev cs)" using ne by (simp add: last_rev f_def)
  have "chain ((prev_f h)(last (t # rev es) \<mapsto> hd (rev cs @ [t]), q \<mapsto> e, last (rev ds) \<mapsto> p))
           t (rev es @ rev cs) t"
    by (rule chain_transfer_src[OF cpt _ _ qnt fnt]) (use dst ne in auto)
  then have "chain ((prev_f h)(l \<mapsto> b, q \<mapsto> e, f \<mapsto> p)) t (rev es @ rev cs) t"
    using ne by (simp only: last_rev_hd hd_rev_last last_rev hd_rev l_def q_def e_def f_def p_def b_def)
  then have p2: "chain (prev_f h') t (rev (cs @ es)) t"
    using fq by (simp add: h'_def fun_upd_twist)
  have fl: "is_linked_f h' = is_linked_f h" by (simp add: h'_def)
  have 1: "list_at h' s (as @ ds @ bs)"
    unfolding list_at_def using n1 p1 fls flt dss dst dj by (auto simp: fl)
  have 2: "list_at h' t (cs @ es)"
    unfolding list_at_def using n2 p2 flt dst by (auto simp: fl)
  have fr: "\<forall>a. a \<notin> set (s # as @ bs) \<union> set (t # cs @ ds @ es)
                 \<longrightarrow> next_f h' a = next_f h a \<and> prev_f h' a = prev_f h a"
  proof (intro allI impI)
    fix a assume a: "a \<notin> set (s # as @ bs) \<union> set (t # cs @ ds @ es)"
    have "a \<noteq> b" using a bin by auto
    moreover have "a \<noteq> p" using a pin by auto
    moreover have "a \<noteq> q" using a qin by auto
    moreover have "a \<noteq> l" using a lin by auto
    moreover have "a \<noteq> e" using a ein by auto
    moreover have "a \<noteq> f" using a fin by auto
    ultimately show "next_f h' a = next_f h a \<and> prev_f h' a = prev_f h a"
      by (simp add: h'_def)
  qed
  show ?thesis using tr 1 2 fl fr by (auto simp: h'_def)
qed

lemma list_at_begin: "list_at h s xs \<Longrightarrow> begin_it h s = it_at s xs"
  using list_at_next[of h s "[]" xs] by (simp add: begin_it_def it_at_hd)

lemma list_at_empty: "list_at h s xs \<Longrightarrow> empty_l h s = (xs = [])"
  using list_at_next[of h s "[]" xs] by (cases xs) (auto simp: empty_l_def list_at_def)

lemma forward_loop_list:
  "list_at h s (as @ bs) \<Longrightarrow> forward_loop h s (it_at s bs) acc = Some (Inr (acc @ bs))"
proof (induction bs arbitrary: as acc)
  case Nil
  then show ?case by (subst forward_loop.simps) (simp add: it_at_hd end_it_def)
next
  case (Cons b r)
  have l: "list_at h s ((as @ [b]) @ r)" using Cons.prems by simp
  have "b \<noteq> s" using Cons.prems by (auto simp: list_at_def)
  moreover have "next_f h b = it_at s r" using list_at_next[OF l] by (simp add: it_at_hd)
  ultimately show ?case using Cons.IH[OF l, of "acc @ [b]"]
    by (subst forward_loop.simps) (simp add: it_at_hd end_it_def incr_def)
qed

lemma forward_list: "list_at h s xs \<Longrightarrow> forward h s = Some (Inr xs)"
  using forward_loop_list[of h s "[]" xs "[]"] by (simp add: forward_def list_at_begin)

lemma backward_loop_list:
  "list_at h s (as @ bs) \<Longrightarrow> backward_loop h s (it_at s bs) acc = Some (Inr (acc @ rev as))"
proof (induction as arbitrary: bs acc rule: rev_induct)
  case Nil
  then show ?case by (subst backward_loop.simps) (simp add: list_at_begin)
next
  case (snoc a r)
  have l: "list_at h s (r @ a # bs)" using snoc.prems by simp
  have "hd (bs @ [s]) \<in> set (s # bs)" by (rule hd_in)
  moreover have "hd ((r @ [a]) @ bs @ [s]) \<in> set (r @ [a])" by (cases r) auto
  ultimately have "hd (bs @ [s]) \<noteq> hd ((r @ [a]) @ bs @ [s])"
    using snoc.prems by (auto simp: list_at_def)
  then have ne: "it_at s bs \<noteq> begin_it h s"
    using list_at_begin[OF snoc.prems] by (simp add: it_at_hd)
  have "prev_f h (hd (bs @ [s])) = Some a" using list_at_prev[OF snoc.prems] by simp
  then show ?case using ne snoc.IH[OF l, of "acc @ [a]"]
    by (subst backward_loop.simps) (simp add: it_at_hd decr_def)
qed

lemma backward_list: "list_at h s xs \<Longrightarrow> backward h s = Some (Inr (rev xs))"
  using backward_loop_list[of h s xs "[]" "[]"] by (simp add: backward_def it_at_hd end_it_def)

lemma list_at_nth_next:
  assumes "list_at h s xs" and "i < length xs"
  shows "next_f h (xs ! i) = it_at s (drop (Suc i) xs)"
proof -
  have "list_at h s (take (Suc i) xs @ drop (Suc i) xs)" using assms(1) by simp
  then have "next_f h (last (s # take (Suc i) xs)) = Some (hd (drop (Suc i) xs @ [s]))"
    by (rule list_at_next)
  then show ?thesis using assms(2) by (simp add: take_Suc_conv_app_nth it_at_hd)
qed

lemma find_split_list:
  assumes l: "list_at h s xs"
  shows "i \<le> min n (length xs) \<Longrightarrow>
         find_split h s (it_at s (drop i xs)) i n
           = Inr (it_at s (drop (min n (length xs)) xs), min n (length xs))"
proof (induction "min n (length xs) - i" arbitrary: i)
  case 0
  then have i: "i = min n (length xs)" by simp
  have "it_at s (drop i xs) = end_it s \<or> \<not> i < n"
    using i by (cases "n \<le> length xs") (auto simp: it_at_hd end_it_def)
  then show ?case using i by (subst find_split.simps) auto
next
  case (Suc k)
  then have i: "i < n" "i < length xs" by auto
  have "xs ! i \<in> set xs" using i by simp
  then have "xs ! i \<noteq> s" using l by (auto simp: list_at_def)
  then have ne: "it_at s (drop i xs) \<noteq> end_it s"
    using i by (simp add: it_at_hd end_it_def hd_drop_conv_nth)
  have st: "incr h (it_at s (drop i xs)) = Inr (it_at s (drop (Suc i) xs))"
    using i list_at_nth_next[OF l i(2)] by (simp add: incr_def it_at_hd hd_drop_conv_nth)
  have "find_split h s (it_at s (drop (Suc i) xs)) (Suc i) n
          = Inr (it_at s (drop (min n (length xs)) xs), min n (length xs))"
    by (rule Suc.hyps(1)) (use Suc.hyps(2) Suc.prems i in auto)
  then show ?case using ne st i by (subst find_split.simps) simp
qed

lemma wfD1: "well_formed h M \<Longrightarrow> M s = Some xs \<Longrightarrow> list_at h s xs"
  by (simp add: well_formed_def)

lemma wfD2: "well_formed h M \<Longrightarrow> M s = Some xs \<Longrightarrow> M t = Some ys \<Longrightarrow> s \<noteq> t \<Longrightarrow> set (s # xs) \<inter> set (t # ys) = {}"
  unfolding well_formed_def by blast

lemma wfD3: "well_formed h M \<Longrightarrow> is_linked_f h a \<Longrightarrow> \<exists>s xs. M s = Some xs \<and> a \<in> set xs"
  unfolding well_formed_def by blast

lemma wf_update1:
  assumes w: "well_formed h M" and m: "M s = Some xs" and l: "list_at h' s xs'"
    and fr: "\<forall>a. a \<notin> set (s # xs) \<union> set xs' \<longrightarrow> next_f h' a = next_f h a \<and> prev_f h' a = prev_f h a"
    and fl: "\<forall>a. is_linked_f h' a = (a \<in> set xs' \<or> (is_linked_f h a \<and> a \<notin> set xs))"
    and nw: "\<forall>t ys. M t = Some ys \<longrightarrow> t \<noteq> s \<longrightarrow> set xs' \<inter> set (t # ys) = {}"
  shows "well_formed h' (M(s \<mapsto> xs'))"
proof -
  have 1: "list_at h' t ys" if t: "(M(s \<mapsto> xs')) t = Some ys" for t ys
  proof (cases "t = s")
    case True
    then show ?thesis using t l by simp
  next
    case False
    then have mt: "M t = Some ys" using t by simp
    have lt: "list_at h t ys" using w mt by (rule wfD1)
    have d1: "set (s # xs) \<inter> set (t # ys) = {}" using w m mt False by (metis wfD2)
    have d2: "set xs' \<inter> set (t # ys) = {}" using nw mt False by blast
    have a: "\<forall>a\<in>set (t # ys). next_f h' a = next_f h a \<and> prev_f h' a = prev_f h a"
    proof
      fix a assume "a \<in> set (t # ys)"
      then have "a \<notin> set (s # xs) \<union> set xs'" using d1 d2 by blast
      then show "next_f h' a = next_f h a \<and> prev_f h' a = prev_f h a" using fr by blast
    qed
    have b: "\<forall>a\<in>set ys. is_linked_f h' a = is_linked_f h a"
    proof
      fix a assume a: "a \<in> set ys"
      then have "is_linked_f h a" using lt by (simp add: list_at_def list_all_iff)
      moreover have "a \<notin> set xs" using a d1 by auto
      ultimately show "is_linked_f h' a = is_linked_f h a" using fl by simp
    qed
    show ?thesis using lt a b by (rule list_at_frame)
  qed
  have 2: "set (u # us) \<inter> set (t # ys) = {}"
    if u: "(M(s \<mapsto> xs')) u = Some us" and t: "(M(s \<mapsto> xs')) t = Some ys" and ne: "u \<noteq> t" for u t us ys
  proof -
    have key: "set (s # xs') \<inter> set (v # vs) = {}" if "M v = Some vs" "v \<noteq> s" for v vs
    proof -
      have "set (s # xs) \<inter> set (v # vs) = {}" using w m that by (metis wfD2)
      moreover have "set xs' \<inter> set (v # vs) = {}" using nw that by blast
      ultimately show ?thesis by auto
    qed
    show ?thesis
    proof (cases "u = s")
      case True
      then have "us = xs'" "M t = Some ys" "t \<noteq> s" using u t ne by auto
      then show ?thesis using key[of t ys] True by simp
    next
      case False
      note us = this
      show ?thesis
      proof (cases "t = s")
        case True
        then have "ys = xs'" "M u = Some us" using u t us by auto
        then show ?thesis using key[of u us] True us by (simp add: Int_commute)
      next
        case False
        then have "M u = Some us" "M t = Some ys" using u t us by auto
        then show ?thesis using w ne by (metis wfD2)
      qed
    qed
  qed
  have 3: "\<exists>t ys. (M(s \<mapsto> xs')) t = Some ys \<and> a \<in> set ys" if a: "is_linked_f h' a" for a
  proof (cases "a \<in> set xs'")
    case True
    then show ?thesis by (intro exI[of _ s] exI[of _ xs']) simp
  next
    case False
    then have "is_linked_f h a" "a \<notin> set xs" using a fl by auto
    then obtain t ys where "M t = Some ys" "a \<in> set ys" "t \<noteq> s" using wfD3[OF w] m by fastforce
    then show ?thesis by (intro exI[of _ t] exI[of _ ys]) simp
  qed
  show ?thesis unfolding well_formed_def using 1 2 3 by blast
qed

lemma wf_update2:
  assumes w: "well_formed h M" and ms: "M s = Some xs" and mt: "M t = Some ys" and st: "s \<noteq> t"
    and ls: "list_at h' s xs'" and lt: "list_at h' t ys'"
    and sets: "set xs' \<union> set ys' = set xs \<union> set ys" and dj: "set xs' \<inter> set ys' = {}"
    and fr: "\<forall>a. a \<notin> set (s # xs) \<union> set (t # ys) \<longrightarrow> next_f h' a = next_f h a \<and> prev_f h' a = prev_f h a"
    and fl: "is_linked_f h' = is_linked_f h"
  shows "well_formed h' (M(s \<mapsto> xs', t \<mapsto> ys'))"
proof -
  let ?M = "M(s \<mapsto> xs', t \<mapsto> ys')"
  define U where "U = set (s # xs) \<union> set (t # ys)"
  have dst: "set (s # xs) \<inter> set (t # ys) = {}" using w ms mt st by (rule wfD2)
  have sx: "s \<notin> set xs" using wfD1[OF w ms] by (simp add: list_at_def)
  have ty: "t \<notin> set ys" using wfD1[OF w mt] by (simp add: list_at_def)
  have U': "set (s # xs') \<union> set (t # ys') = U" using sets unfolding U_def by auto
  have other: "set (v # vs) \<inter> U = {}" if "M v = Some vs" "v \<noteq> s" "v \<noteq> t" for v vs
  proof -
    have "set (v # vs) \<inter> set (s # xs) = {}" using w that(1) ms that(2) by (rule wfD2)
    moreover have "set (v # vs) \<inter> set (t # ys) = {}" using w that(1) mt that(3) by (rule wfD2)
    ultimately show ?thesis unfolding U_def by blast
  qed
  have "s \<notin> set xs' \<union> set ys'" using sets sx dst by auto
  moreover have "t \<notin> set xs' \<union> set ys'" using sets ty dst by auto
  ultimately have both: "set (s # xs') \<inter> set (t # ys') = {}" using dj st by auto
  have 1: "list_at h' u us" if u: "?M u = Some us" for u us
  proof -
    consider "u = t" | "u = s" "u \<noteq> t" | "u \<noteq> s" "u \<noteq> t" by blast
    then show ?thesis
    proof cases
      case 1 then show ?thesis using u lt by simp
    next
      case 2 then show ?thesis using u ls by simp
    next
      case 3
      then have mu: "M u = Some us" using u by simp
      have lu: "list_at h u us" using w mu by (rule wfD1)
      have d: "set (u # us) \<inter> U = {}" using mu 3 by (rule other)
      have a: "\<forall>a\<in>set (u # us). next_f h' a = next_f h a \<and> prev_f h' a = prev_f h a"
      proof
        fix a assume "a \<in> set (u # us)"
        then have "a \<notin> U" using d by blast
        then show "next_f h' a = next_f h a \<and> prev_f h' a = prev_f h a" using fr unfolding U_def by blast
      qed
      show ?thesis using lu a by (rule list_at_frame) (simp add: fl)
    qed
  qed
  have cellsU: "set (u # us) \<subseteq> U" if "?M u = Some us" "u = s \<or> u = t" for u us
    using that U' by (auto split: if_splits)
  have 2: "set (u # us) \<inter> set (v # vs) = {}"
    if u: "?M u = Some us" and v: "?M v = Some vs" and ne: "u \<noteq> v" for u v us vs
  proof -
    consider "u = s \<or> u = t" "v = s \<or> v = t" | "u = s \<or> u = t" "v \<noteq> s" "v \<noteq> t"
      | "u \<noteq> s" "u \<noteq> t" "v = s \<or> v = t" | "u \<noteq> s" "u \<noteq> t" "v \<noteq> s" "v \<noteq> t" by blast
    then show ?thesis
    proof cases
      case 1
      then have "(u = s \<and> v = t) \<or> (u = t \<and> v = s)" using ne by blast
      then show ?thesis using u v both st by (auto simp: Int_commute)
    next
      case 2
      then have "M v = Some vs" using v by simp
      then have "set (v # vs) \<inter> U = {}" using 2 by (intro other)
      then show ?thesis using cellsU[OF u 2(1)] by blast
    next
      case 3
      then have "M u = Some us" using u by simp
      then have "set (u # us) \<inter> U = {}" using 3 by (intro other)
      then show ?thesis using cellsU[OF v 3(3)] by blast
    next
      case 4
      then have "M u = Some us" "M v = Some vs" using u v by auto
      then show ?thesis using w ne by (metis wfD2)
    qed
  qed
  have 3: "\<exists>u us. ?M u = Some us \<and> a \<in> set us" if a: "is_linked_f h' a" for a
  proof -
    have "is_linked_f h a" using a fl by simp
    then obtain u us where mu: "M u = Some us" and au: "a \<in> set us" using wfD3[OF w] by blast
    show ?thesis
    proof (cases "u = s \<or> u = t")
      case True
      then have "a \<in> set xs \<union> set ys" using mu au ms mt by auto
      then have "a \<in> set xs' \<or> a \<in> set ys'" using sets by blast
      then show ?thesis
      proof
        assume "a \<in> set xs'"
        then show ?thesis using st by (intro exI[of _ s] exI[of _ xs']) simp
      next
        assume "a \<in> set ys'"
        then show ?thesis by (intro exI[of _ t] exI[of _ ys']) simp
      qed
    next
      case False
      then show ?thesis using mu au by (intro exI[of _ u] exI[of _ us]) simp
    qed
  qed
  show ?thesis unfolding well_formed_def using 1 2 3 by blast
qed

lemma fresh_unlinked: "well_formed h M \<Longrightarrow> fresh M x \<Longrightarrow> \<not> is_linked_f h x"
  using wfD3[of h M x] by (auto simp: fresh_def)

lemma wf_link_between:
  assumes w: "well_formed h M" and m: "M s = Some (as @ bs)" and f: "fresh M x"
  shows "well_formed (link_between h x (last (s # as)) (hd (bs @ [s]))) (M(s \<mapsto> as @ x # bs))"
proof -
  define p where "p = last (s # as)"
  define q where "q = hd (bs @ [s])"
  define h' where "h' = link_between h x p q"
  have l: "list_at h s (as @ bs)" using w m by (rule wfD1)
  have xs: "x \<notin> set (s # as @ bs)" using f m unfolding fresh_def by blast
  have xl: "\<not> is_linked_f h x" using w f by (rule fresh_unlinked)
  have l': "list_at h' s (as @ x # bs)"
    unfolding h'_def p_def q_def by (rule list_at_link_between[OF l]) (use xs xl in auto)
  have pin: "p \<in> set (s # as)" unfolding p_def by (rule last_in)
  have qin: "q \<in> set (s # bs)" unfolding q_def by (rule hd_in)
  have nf: "next_f h' = (next_f h)(x \<mapsto> q, p \<mapsto> x)"
    and pf: "prev_f h' = (prev_f h)(x \<mapsto> p, q \<mapsto> x)"
    and lf: "is_linked_f h' = (is_linked_f h)(x := True)"
    by (simp_all add: h'_def link_between_def set_linked_def link_between_base_def)
  have fr: "\<forall>a. a \<notin> set (s # as @ bs) \<union> set (as @ x # bs) \<longrightarrow> next_f h' a = next_f h a \<and> prev_f h' a = prev_f h a"
  proof (intro allI impI)
    fix a assume a: "a \<notin> set (s # as @ bs) \<union> set (as @ x # bs)"
    have "a \<noteq> p" using a pin by auto
    moreover have "a \<noteq> q" using a qin by auto
    moreover have "a \<noteq> x" using a by auto
    ultimately show "next_f h' a = next_f h a \<and> prev_f h' a = prev_f h a" by (simp add: nf pf)
  qed
  have fl: "\<forall>a. is_linked_f h' a = (a \<in> set (as @ x # bs) \<or> (is_linked_f h a \<and> a \<notin> set (as @ bs)))"
    using l by (auto simp: lf list_at_def list_all_iff)
  have nw: "\<forall>t ys. M t = Some ys \<longrightarrow> t \<noteq> s \<longrightarrow> set (as @ x # bs) \<inter> set (t # ys) = {}"
  proof (intro allI impI)
    fix t ys assume t: "M t = Some ys" "t \<noteq> s"
    have "set (s # as @ bs) \<inter> set (t # ys) = {}" using w m t by (metis wfD2)
    moreover have "x \<notin> set (t # ys)" using f t unfolding fresh_def by blast
    ultimately show "set (as @ x # bs) \<inter> set (t # ys) = {}" by auto
  qed
  have "well_formed h' (M(s \<mapsto> as @ x # bs))" using w m l' fr fl nw by (rule wf_update1)
  then show ?thesis by (simp add: h'_def p_def q_def)
qed

lemma wf_insert_before:
  assumes w: "well_formed h M" and m: "M s = Some (as @ bs)" and f: "fresh M x"
  shows "\<exists>h'. insert_before nd h (it_at s bs) x = Inr h' \<and> well_formed h' (M(s \<mapsto> as @ x # bs))
            \<and> is_linked_f h' = (is_linked_f h)(x := True) \<and> stderr h' = stderr h"
proof -
  have l: "list_at h s (as @ bs)" using w m by (rule wfD1)
  have xs: "x \<noteq> s" using f m unfolding fresh_def by fastforce
  have xl: "\<not> is_linked_f h x" using w f by (rule fresh_unlinked)
  show ?thesis
    using insert_before_list_at[OF l xs xl, of nd] wf_link_between[OF w m f]
    by (simp add: link_between_def set_linked_def link_between_base_def)
qed

lemma wf_insert_after:
  assumes w: "well_formed h M" and m: "M s = Some xs" and f: "fresh M x"
  shows "\<exists>h'. insert_after nd h s x = Inr h' \<and> well_formed h' (M(s \<mapsto> x # xs))
            \<and> is_linked_f h' = (is_linked_f h)(x := True) \<and> stderr h' = stderr h"
proof -
  have l: "list_at h s ([] @ xs)" using w m by (simp add: wfD1)
  have xl: "\<not> is_linked_f h x" using w f by (rule fresh_unlinked)
  have n: "next_f h s = Some (hd (xs @ [s]))" using list_at_next[OF l] by simp
  have "insert_after nd h s x = Inr (link_between h x s (hd (xs @ [s])))"
    using n xl by (simp add: insert_after_def assert_holds_def is_linked_def)
  moreover have "well_formed (link_between h x (last (s # [])) (hd (xs @ [s]))) (M(s \<mapsto> [] @ x # xs))"
    by (rule wf_link_between[OF w _ f]) (simp add: m)
  ultimately show ?thesis
    by (simp add: link_between_def set_linked_def link_between_base_def)
qed

lemma wf_unlink:
  assumes w: "well_formed h M" and m: "M s = Some (as @ x # bs)"
  shows "\<exists>h'. unlink nd h x = Inr h' \<and> well_formed h' (M(s \<mapsto> as @ bs))
            \<and> is_linked_f h' = (is_linked_f h)(x := False) \<and> stderr h' = stderr h"
proof -
  define p where "p = last (s # as)"
  define q where "q = hd (bs @ [s])"
  have l: "list_at h s (as @ x # bs)" using w m by (rule wfD1)
  have d: "distinct (s # as @ x # bs)" using l by (simp add: list_at_def)
  obtain h' where u: "unlink nd h x = Inr h'" and l': "list_at h' s (as @ bs)"
    and nf: "next_f h' = (next_f h)(p \<mapsto> q)" and pf: "prev_f h' = (prev_f h)(q \<mapsto> p)"
    and lf: "is_linked_f h' = (is_linked_f h)(x := False)" and se: "stderr h' = stderr h"
    using list_at_unlink[OF l, of nd] unfolding p_def q_def by blast
  have pin: "p \<in> set (s # as)" unfolding p_def by (rule last_in)
  have qin: "q \<in> set (s # bs)" unfolding q_def by (rule hd_in)
  have fr: "\<forall>a. a \<notin> set (s # as @ x # bs) \<union> set (as @ bs) \<longrightarrow> next_f h' a = next_f h a \<and> prev_f h' a = prev_f h a"
  proof (intro allI impI)
    fix a assume a: "a \<notin> set (s # as @ x # bs) \<union> set (as @ bs)"
    have "a \<noteq> p" using a pin by auto
    moreover have "a \<noteq> q" using a qin by auto
    ultimately show "next_f h' a = next_f h a \<and> prev_f h' a = prev_f h a" by (simp add: nf pf)
  qed
  have fl: "\<forall>a. is_linked_f h' a = (a \<in> set (as @ bs) \<or> (is_linked_f h a \<and> a \<notin> set (as @ x # bs)))"
    using l d by (auto simp: lf list_at_def list_all_iff)
  have nw: "\<forall>t ys. M t = Some ys \<longrightarrow> t \<noteq> s \<longrightarrow> set (as @ bs) \<inter> set (t # ys) = {}"
  proof (intro allI impI)
    fix t ys assume t: "M t = Some ys" "t \<noteq> s"
    have "set (s # as @ x # bs) \<inter> set (t # ys) = {}" using w m t by (metis wfD2)
    then show "set (as @ bs) \<inter> set (t # ys) = {}" by auto
  qed
  have "well_formed h' (M(s \<mapsto> as @ bs))" using w m l' fr fl nw by (rule wf_update1)
  then show ?thesis using u lf se by blast
qed

lemma wf_transfer:
  assumes w: "well_formed h M" and ms: "M s = Some (as @ bs)" and mt: "M t = Some (cs @ ds @ es)"
    and st: "s \<noteq> t" and ne: "ds \<noteq> []"
  shows "\<exists>h'. transfer_range h (it_at s bs) (Some (hd ds)) (it_at t es) = Inr h'
            \<and> well_formed h' (M(s \<mapsto> as @ ds @ bs, t \<mapsto> cs @ es))
            \<and> is_linked_f h' = is_linked_f h \<and> stderr h' = stderr h"
proof -
  have ls: "list_at h s (as @ bs)" using w ms by (rule wfD1)
  have lt: "list_at h t (cs @ ds @ es)" using w mt by (rule wfD1)
  have dj: "set (s # as @ bs) \<inter> set (t # cs @ ds @ es) = {}" using w ms mt st by (rule wfD2)
  obtain h' where tr: "transfer_range h (it_at s bs) (Some (hd ds)) (it_at t es) = Inr h'"
    and ls': "list_at h' s (as @ ds @ bs)" and lt': "list_at h' t (cs @ es)"
    and fl: "is_linked_f h' = is_linked_f h" and se: "stderr h' = stderr h"
    and fr: "\<forall>a. a \<notin> set (s # as @ bs) \<union> set (t # cs @ ds @ es)
                 \<longrightarrow> next_f h' a = next_f h a \<and> prev_f h' a = prev_f h a"
    using list_at_transfer[OF ls lt ne dj] by blast
  have sets: "set (as @ ds @ bs) \<union> set (cs @ es) = set (as @ bs) \<union> set (cs @ ds @ es)" by auto
  have d2: "set (as @ ds @ bs) \<inter> set (cs @ es) = {}"
    using dj lt by (auto simp: list_at_def)
  have "well_formed h' (M(s \<mapsto> as @ ds @ bs, t \<mapsto> cs @ es))"
    using w ms mt st ls' lt' sets d2 fr fl by (rule wf_update2)
  then show ?thesis using tr fl se by blast
qed

lemma wf_new_list:
  assumes w: "well_formed h M" and f: "fresh M s"
  shows "well_formed (IntrusiveList h s) (M(s \<mapsto> []))"
proof -
  let ?h = "IntrusiveList h s"
  have nf: "next_f ?h = (next_f h)(s \<mapsto> s)" and pf: "prev_f ?h = (prev_f h)(s \<mapsto> s)"
    and lf: "is_linked_f ?h = is_linked_f h"
    by (simp_all add: IntrusiveList_def init_sentinel_def NodeBase_def)
  have ms: "M s = None" using f unfolding fresh_def by (cases "M s") auto
  have 1: "list_at ?h t ys" if t: "(M(s \<mapsto> [])) t = Some ys" for t ys
  proof (cases "t = s")
    case True
    then show ?thesis using t by (simp add: list_at_def nf pf)
  next
    case False
    then have mt: "M t = Some ys" using t by simp
    have "s \<notin> set (t # ys)" using f mt unfolding fresh_def by blast
    then have a: "\<forall>a\<in>set (t # ys). next_f ?h a = next_f h a \<and> prev_f ?h a = prev_f h a"
      by (auto simp: nf pf)
    have b: "\<forall>a\<in>set ys. is_linked_f ?h a = is_linked_f h a" by (simp add: lf)
    show ?thesis using wfD1[OF w mt] a b by (rule list_at_frame)
  qed
  have 2: "set (u # us) \<inter> set (t # ys) = {}"
    if u: "(M(s \<mapsto> [])) u = Some us" and t: "(M(s \<mapsto> [])) t = Some ys" and ne: "u \<noteq> t" for u t us ys
  proof -
    have k: "s \<notin> set (v # vs)" if "M v = Some vs" for v vs using f that unfolding fresh_def by blast
    consider "u = s" "t \<noteq> s" | "t = s" "u \<noteq> s" | "u \<noteq> s" "t \<noteq> s" using ne by blast
    then show ?thesis
    proof cases
      case 1 then show ?thesis using u t k[of t ys] by auto
    next
      case 2 then show ?thesis using u t k[of u us] by auto
    next
      case 3
      then have "M u = Some us" "M t = Some ys" using u t by auto
      then show ?thesis using w ne by (metis wfD2)
    qed
  qed
  have 3: "\<exists>t ys. (M(s \<mapsto> [])) t = Some ys \<and> a \<in> set ys" if a: "is_linked_f ?h a" for a
  proof -
    have "is_linked_f h a" using a by (simp add: lf)
    then obtain t ys where "M t = Some ys" "a \<in> set ys" using wfD3[OF w] by blast
    moreover from this have "t \<noteq> s" using ms by auto
    ultimately show ?thesis by (intro exI[of _ t] exI[of _ ys]) simp
  qed
  show ?thesis unfolding well_formed_def using 1 2 3 by blast
qed

lemma wf_new_node:
  assumes w: "well_formed h M" and f: "fresh M x"
  shows "well_formed (IntrusiveListNode h x) M"
proof -
  let ?h = "IntrusiveListNode h x"
  have nf: "next_f ?h = (next_f h)(x := None)" and pf: "prev_f ?h = (prev_f h)(x := None)"
    and lf: "is_linked_f ?h = (is_linked_f h)(x := False)"
    by (simp_all add: IntrusiveListNode_def NodeBase_def)
  have 1: "list_at ?h t ys" if mt: "M t = Some ys" for t ys
  proof -
    have "x \<notin> set (t # ys)" using f mt unfolding fresh_def by blast
    then have a: "\<forall>a\<in>set (t # ys). next_f ?h a = next_f h a \<and> prev_f ?h a = prev_f h a"
      and b: "\<forall>a\<in>set ys. is_linked_f ?h a = is_linked_f h a"
      by (auto simp: nf pf lf)
    show ?thesis using wfD1[OF w mt] a b by (rule list_at_frame)
  qed
  have 2: "set (u # us) \<inter> set (t # ys) = {}"
    if "M u = Some us" "M t = Some ys" "u \<noteq> t" for u t us ys
    using w that by (rule wfD2)
  have 3: "\<exists>t ys. M t = Some ys \<and> a \<in> set ys" if a: "is_linked_f ?h a" for a
  proof -
    have "is_linked_f h a" using a by (simp add: lf split: if_splits)
    then show ?thesis using wfD3[OF w] by blast
  qed
  show ?thesis unfolding well_formed_def using 1 2 3 by blast
qed

lemma wf_push_back:
  assumes w: "well_formed h M" and m: "M s = Some xs" and f: "fresh M x"
  shows "\<exists>h'. push_back nd h s x = Inr h' \<and> well_formed h' (M(s \<mapsto> xs @ [x]))
            \<and> is_linked_f h' = (is_linked_f h)(x := True) \<and> stderr h' = stderr h"
  using wf_insert_before[of h M s xs "[]" x nd] assms
  by (simp add: push_back_def it_at_hd)

lemma wf_push_front:
  assumes w: "well_formed h M" and m: "M s = Some xs" and f: "fresh M x"
  shows "\<exists>h'. push_front nd h s x = Inr h' \<and> well_formed h' (M(s \<mapsto> x # xs))
            \<and> is_linked_f h' = (is_linked_f h)(x := True) \<and> stderr h' = stderr h"
  using wf_insert_after[OF assms, of nd] by (simp add: push_front_def)

lemma wf_insert_at:
  assumes w: "well_formed h M" and m: "M s = Some (as @ bs)" and f: "fresh M x"
  shows "\<exists>h'. insert_at nd h s (it_at s bs) x = Inr (h', Some x) \<and> well_formed h' (M(s \<mapsto> as @ x # bs))
            \<and> is_linked_f h' = (is_linked_f h)(x := True) \<and> stderr h' = stderr h"
proof -
  obtain h' where "insert_before nd h (it_at s bs) x = Inr h'" "well_formed h' (M(s \<mapsto> as @ x # bs))"
    "is_linked_f h' = (is_linked_f h)(x := True)" "stderr h' = stderr h"
    using wf_insert_before[OF assms, of nd] by blast
  then show ?thesis by (simp add: insert_at_def)
qed

lemma wf_pop_front:
  assumes w: "well_formed h M" and m: "M s = Some (x # xs)"
  shows "\<exists>h'. pop_front nd h s = Inr h' \<and> well_formed h' (M(s \<mapsto> xs))
            \<and> is_linked_f h' = (is_linked_f h)(x := False) \<and> stderr h' = stderr h"
proof -
  have l: "list_at h s (x # xs)" using w m by (rule wfD1)
  have e: "\<not> empty_l h s" using list_at_empty[OF l] by simp
  have n: "next_f h s = Some x" using list_at_next[of h s "[]" "x # xs"] l by simp
  have "pop_front nd h s = unlink nd h x" using e n by (simp add: pop_front_def assert_holds_def)
  then show ?thesis using wf_unlink[of h M s "[]" x xs nd] w m by simp
qed

lemma wf_pop_back:
  assumes w: "well_formed h M" and m: "M s = Some (xs @ [x])"
  shows "\<exists>h'. pop_back nd h s = Inr h' \<and> well_formed h' (M(s \<mapsto> xs))
            \<and> is_linked_f h' = (is_linked_f h)(x := False) \<and> stderr h' = stderr h"
proof -
  have l: "list_at h s (xs @ [x])" using w m by (rule wfD1)
  have e: "\<not> empty_l h s" using list_at_empty[OF l] by simp
  have n: "prev_f h s = Some x" using list_at_prev[of h s "xs @ [x]" "[]"] l by simp
  have "pop_back nd h s = unlink nd h x" using e n by (simp add: pop_back_def assert_holds_def)
  then show ?thesis using wf_unlink[of h M s xs x "[]" nd] w m by simp
qed

lemma wf_erase:
  assumes w: "well_formed h M" and m: "M s = Some (as @ x # bs)"
  shows "\<exists>h'. erase nd h s (Some x) = Inr (h', it_at s bs) \<and> well_formed h' (M(s \<mapsto> as @ bs))
            \<and> is_linked_f h' = (is_linked_f h)(x := False) \<and> stderr h' = stderr h"
proof -
  have l: "list_at h s (as @ x # bs)" using w m by (rule wfD1)
  have xs: "x \<noteq> s" using l by (auto simp: list_at_def)
  have n: "next_f h x = it_at s bs" using list_at_next[of h s "as @ [x]" bs] l by (simp add: it_at_hd)
  obtain h' where "unlink nd h x = Inr h'" "well_formed h' (M(s \<mapsto> as @ bs))"
    "is_linked_f h' = (is_linked_f h)(x := False)" "stderr h' = stderr h"
    using wf_unlink[OF w m, of nd] by blast
  then show ?thesis using xs n by (simp add: erase_def assert_holds_def end_it_def)
qed

lemma wf_splice:
  assumes w: "well_formed h M" and ms: "M s = Some (as @ bs)" and mt: "M t = Some ys" and st: "s \<noteq> t"
  shows "\<exists>h'. splice_l h s (it_at s bs) t = Inr h' \<and> well_formed h' (M(s \<mapsto> as @ ys @ bs, t \<mapsto> []))
            \<and> is_linked_f h' = is_linked_f h \<and> stderr h' = stderr h"
proof (cases "ys = []")
  case True
  have lt: "list_at h t ys" using w mt by (rule wfD1)
  have "splice_l h s (it_at s bs) t = Inr h" using list_at_empty[OF lt] True by (simp add: splice_l_def)
  moreover have "M(s \<mapsto> as @ ys @ bs, t \<mapsto> []) = M" using True ms mt by (auto simp: fun_eq_iff)
  ultimately show ?thesis using w by simp
next
  case False
  have lt: "list_at h t ys" using w mt by (rule wfD1)
  have e: "\<not> empty_l h t" using list_at_empty[OF lt] False by simp
  have b: "begin_it h t = Some (hd ys)" using list_at_begin[OF lt] False by (simp add: it_at_hd)
  have "splice_l h s (it_at s bs) t = transfer_range h (it_at s bs) (Some (hd ys)) (it_at t [])"
    using e st b by (simp add: splice_l_def splice_range_def it_at_hd end_it_def)
  then show ?thesis using wf_transfer[of h M s as bs t "[]" ys "[]"] w ms mt st False by simp
qed

lemma chain_retarget:
  assumes c: "chain f a xs b" and d: "distinct (a # xs)"
    and same: "\<forall>u\<in>set (a # xs). u \<noteq> last (a # xs) \<longrightarrow> g u = f u"
    and tgt: "g (last (a # xs)) = Some c"
  shows "chain g a xs c"
proof -
  have "chain (f(last (a # xs) \<mapsto> c)) a xs c" using d c by (rule chain_redirect)
  moreover have "\<forall>u\<in>set (a # xs). g u = (f(last (a # xs) \<mapsto> c)) u"
    using same tgt by auto
  ultimately show ?thesis using chain_cong[of a xs g "f(last (a # xs) \<mapsto> c)" c] by blast
qed

lemma chain_swap:
  assumes c: "chain f s (as @ bs @ ds @ es) s" and d: "distinct (s # as @ bs @ ds @ es)"
    and bne: "bs \<noteq> []" and dne: "ds \<noteq> []"
    and gp: "g (last (s # as)) = Some (hd ds)"
    and gd: "g (last ds) = Some (hd bs)"
    and gb: "g (last bs) = Some (hd (es @ [s]))"
    and same: "\<forall>u. u \<noteq> last (s # as) \<longrightarrow> u \<noteq> last ds \<longrightarrow> u \<noteq> last bs \<longrightarrow> g u = f u"
  shows "chain g s (as @ ds @ bs @ es) s"
proof -
  obtain b br where bs: "bs = b # br" using bne by (cases bs) auto
  obtain x dr where ds: "ds = x # dr" using dne by (cases ds) auto
  define p where "p = last (s # as)"
  define eb where "eb = last (b # br)"
  define ed where "ed = last (x # dr)"
  have pin: "p \<in> set (s # as)" unfolding p_def by (rule last_in)
  have ebin: "eb \<in> set (b # br)" unfolding eb_def by (rule last_in)
  have edin: "ed \<in> set (x # dr)" unfolding ed_def by (rule last_in)
  have same': "\<forall>u. u \<noteq> p \<longrightarrow> u \<noteq> ed \<longrightarrow> u \<noteq> eb \<longrightarrow> g u = f u"
    using same unfolding p_def eb_def ed_def bs ds by blast
  have dA: "distinct (s # as)" and dB: "distinct (b # br)" and dD: "distinct (x # dr)"
    using d unfolding bs ds by auto
  have nA: "ed \<notin> set (s # as)" "eb \<notin> set (s # as)"
    using ebin edin d unfolding bs ds by auto
  have nB: "p \<notin> set (b # br)" "ed \<notin> set (b # br)"
    using pin edin d unfolding bs ds by auto
  have nD: "p \<notin> set (x # dr)" "eb \<notin> set (x # dr)"
    using pin ebin d unfolding bs ds by auto
  have nE: "p \<notin> set es" "eb \<notin> set es" "ed \<notin> set es"
    using pin ebin edin d unfolding bs ds by auto
  have c1: "chain f s as b" using chain_init[OF c] by (simp add: bs)
  have "chain f (last (s # as)) (b # br @ ds @ es) s" using chain_tail[OF c] by (simp add: bs)
  then have c2': "chain f b (br @ ds @ es) s" by simp
  then have c2: "chain f b br x" using chain_init[of f b br "ds @ es" s] by (simp add: ds)
  have "chain f (last (b # br)) (x # dr @ es) s" using chain_tail[OF c2'] by (simp add: ds)
  then have c3': "chain f x (dr @ es) s" by simp
  then have c3: "chain f x dr (hd (es @ [s]))" by (rule chain_init)
  have c4': "chain f (last (x # dr)) es s" using c3' by (rule chain_tail)
  have g1: "chain g s as x"
  proof (rule chain_retarget[OF c1 dA])
    show "\<forall>u\<in>set (s # as). u \<noteq> last (s # as) \<longrightarrow> g u = f u"
      using same' nA unfolding p_def[symmetric] by metis
    show "g (last (s # as)) = Some x" using gp by (simp add: ds)
  qed
  have g2: "chain g x dr b"
  proof (rule chain_retarget[OF c3 dD])
    show "\<forall>u\<in>set (x # dr). u \<noteq> last (x # dr) \<longrightarrow> g u = f u"
      using same' nD unfolding ed_def[symmetric] by metis
    show "g (last (x # dr)) = Some b" using gd by (simp add: ds bs)
  qed
  have g3: "chain g b br (hd (es @ [s]))"
  proof (rule chain_retarget[OF c2 dB])
    show "\<forall>u\<in>set (b # br). u \<noteq> last (b # br) \<longrightarrow> g u = f u"
      using same' nB unfolding eb_def[symmetric] by metis
    show "g (last (b # br)) = Some (hd (es @ [s]))" using gb by (simp add: bs)
  qed
  have g4: "chain g (hd es) (tl es) s" if "es \<noteq> []"
  proof -
    from that obtain n r where es: "es = n # r" by (cases es) auto
    have "chain f n r s" using c4' by (simp add: es)
    moreover have "\<forall>u\<in>set (n # r). g u = f u" using same' nE unfolding es by metis
    ultimately have "chain g n r s" using chain_cong[of n r g f s] by blast
    then show ?thesis by (simp add: es)
  qed
  have "chain g b (br @ es) s" using g3 g4 by (rule chain_glue)
  then have "chain g x (dr @ b # br @ es) s" using g2 by (simp add: chain_append)
  then have "chain g s (as @ x # dr @ b # br @ es) s" using g1 by (simp add: chain_append)
  then show ?thesis by (simp add: bs ds)
qed

lemma list_at_swap:
  assumes l: "list_at h s (as @ bs @ ds @ es)" and bne: "bs \<noteq> []" and dne: "ds \<noteq> []"
    and n1: "next_f h' (last (s # as)) = Some (hd ds)"
    and n2: "next_f h' (last ds) = Some (hd bs)"
    and n3: "next_f h' (last bs) = Some (hd (es @ [s]))"
    and nsame: "\<forall>u. u \<noteq> last (s # as) \<longrightarrow> u \<noteq> last ds \<longrightarrow> u \<noteq> last bs \<longrightarrow> next_f h' u = next_f h u"
    and p1: "prev_f h' (hd (es @ [s])) = Some (last bs)"
    and p2: "prev_f h' (hd bs) = Some (last ds)"
    and p3: "prev_f h' (hd ds) = Some (last (s # as))"
    and psame: "\<forall>u. u \<noteq> hd (es @ [s]) \<longrightarrow> u \<noteq> hd bs \<longrightarrow> u \<noteq> hd ds \<longrightarrow> prev_f h' u = prev_f h u"
    and lf: "is_linked_f h' = is_linked_f h"
  shows "list_at h' s (as @ ds @ bs @ es)"
proof -
  have fl: "list_all (is_linked_f h) (as @ bs @ ds @ es)" and d: "distinct (s # as @ bs @ ds @ es)"
    and cn: "chain (next_f h) s (as @ bs @ ds @ es) s"
    and cp: "chain (prev_f h) s (rev es @ rev ds @ rev bs @ rev as) s"
    using l by (simp_all add: list_at_def)
  have 1: "chain (next_f h') s (as @ ds @ bs @ es) s"
    using cn d bne dne n1 n2 n3 nsame by (rule chain_swap)
  have d': "distinct (s # rev es @ rev ds @ rev bs @ rev as)" using d by auto
  have "chain (prev_f h') s (rev es @ rev bs @ rev ds @ rev as) s"
  proof (rule chain_swap[OF cp d'])
    show "rev ds \<noteq> []" "rev bs \<noteq> []" using bne dne by simp_all
    show "prev_f h' (last (s # rev es)) = Some (hd (rev bs))"
      using p1 bne by (simp only: last_rev_hd hd_rev)
    show "prev_f h' (last (rev bs)) = Some (hd (rev ds))"
      using p2 bne dne by (simp only: last_rev hd_rev)
    show "prev_f h' (last (rev ds)) = Some (hd (rev as @ [s]))"
      using p3 dne by (simp only: last_rev hd_rev_last)
    show "\<forall>u. u \<noteq> last (s # rev es) \<longrightarrow> u \<noteq> last (rev bs) \<longrightarrow> u \<noteq> last (rev ds)
            \<longrightarrow> prev_f h' u = prev_f h u"
      using psame bne dne by (simp only: last_rev_hd last_rev)
  qed
  then have 2: "chain (prev_f h') s (rev (as @ ds @ bs @ es)) s" by simp
  have 3: "list_all (is_linked_f h') (as @ ds @ bs @ es)" using fl by (auto simp: lf)
  have 4: "distinct (s # as @ ds @ bs @ es)" using d by auto
  show ?thesis unfolding list_at_def using 1 2 3 4 by blast
qed

lemma wf_swap:
  assumes w: "well_formed h M" and m: "M s = Some (as @ bs @ ds @ es)"
    and l: "list_at h' s (as @ ds @ bs @ es)"
    and fr: "\<forall>a. a \<notin> set (s # as @ bs @ ds @ es) \<longrightarrow> next_f h' a = next_f h a \<and> prev_f h' a = prev_f h a"
    and lf: "is_linked_f h' = is_linked_f h"
  shows "well_formed h' (M(s \<mapsto> as @ ds @ bs @ es))"
proof (rule wf_update1[OF w m l])
  show "\<forall>a. a \<notin> set (s # as @ bs @ ds @ es) \<union> set (as @ ds @ bs @ es)
           \<longrightarrow> next_f h' a = next_f h a \<and> prev_f h' a = prev_f h a"
    using fr by blast
  have "list_at h s (as @ bs @ ds @ es)" using w m by (rule wfD1)
  then have "\<forall>a\<in>set (as @ bs @ ds @ es). is_linked_f h a" by (simp add: list_at_def list_all_iff)
  then show "\<forall>a. is_linked_f h' a = (a \<in> set (as @ ds @ bs @ es)
                 \<or> (is_linked_f h a \<and> a \<notin> set (as @ bs @ ds @ es)))"
    unfolding lf by auto
  show "\<forall>t ys. M t = Some ys \<longrightarrow> t \<noteq> s \<longrightarrow> set (as @ ds @ bs @ es) \<inter> set (t # ys) = {}"
  proof (intro allI impI)
    fix t ys assume t: "M t = Some ys" "t \<noteq> s"
    have "set (s # as @ bs @ ds @ es) \<inter> set (t # ys) = {}" using w m t by (metis wfD2)
    then show "set (as @ ds @ bs @ es) \<inter> set (t # ys) = {}" by auto
  qed
qed

lemma swap_facts:
  assumes l: "list_at h s (as @ bs @ ds @ es)" and bne: "bs \<noteq> []" and dne: "ds \<noteq> []"
  shows "prev_f h (hd bs) = Some (last (s # as))"
    and "prev_f h (hd ds) = Some (last bs)"
    and "prev_f h (hd (es @ [s])) = Some (last ds)"
    and "last (s # as) \<noteq> last bs" and "last (s # as) \<noteq> last ds" and "last bs \<noteq> last ds"
    and "hd (es @ [s]) \<noteq> hd bs" and "hd (es @ [s]) \<noteq> hd ds" and "hd bs \<noteq> hd ds"
    and "{last (s # as), last bs, last ds, hd bs, hd ds, hd (es @ [s])} \<subseteq> set (s # as @ bs @ ds @ es)"
proof -
  have d: "distinct (s # as @ bs @ ds @ es)" using l by (simp add: list_at_def)
  have pin: "last (s # as) \<in> set (s # as)" by (rule last_in)
  have qin: "hd (es @ [s]) \<in> set (s # es)" by (rule hd_in)
  have bin: "hd bs \<in> set bs" "last bs \<in> set bs" using bne by simp_all
  have din: "hd ds \<in> set ds" "last ds \<in> set ds" using dne by simp_all
  show "prev_f h (hd bs) = Some (last (s # as))"
    using list_at_prev[of h s as "bs @ ds @ es"] l bne by simp
  show "prev_f h (hd ds) = Some (last bs)"
    using list_at_prev[of h s "as @ bs" "ds @ es"] l bne dne by simp
  show "prev_f h (hd (es @ [s])) = Some (last ds)"
    using list_at_prev[of h s "as @ bs @ ds" es] l dne by simp
  show "last (s # as) \<noteq> last bs" using pin bin(2) d by auto
  show "last (s # as) \<noteq> last ds" using pin din(2) d by auto
  show "last bs \<noteq> last ds" using bin(2) din(2) d by auto
  show "hd (es @ [s]) \<noteq> hd bs" using qin bin(1) d by auto
  show "hd (es @ [s]) \<noteq> hd ds" using qin din(1) d by auto
  show "hd bs \<noteq> hd ds" using bin(1) din(1) d by auto
  show "{last (s # as), last bs, last ds, hd bs, hd ds, hd (es @ [s])} \<subseteq> set (s # as @ bs @ ds @ es)"
    using pin qin bin din by auto
qed

lemma wf_transfer_same:
  assumes w: "well_formed h M" and m: "M s = Some (as @ bs @ ds @ es)"
    and bne: "bs \<noteq> []" and dne: "ds \<noteq> []"
  shows "\<exists>h'. transfer_range h (it_at s (bs @ ds @ es)) (it_at s (ds @ es)) (it_at s es) = Inr h'
            \<and> well_formed h' (M(s \<mapsto> as @ ds @ bs @ es))
            \<and> is_linked_f h' = is_linked_f h \<and> stderr h' = stderr h"
    and "\<exists>h'. transfer_range h (it_at s es) (it_at s (bs @ ds @ es)) (it_at s (ds @ es)) = Inr h'
            \<and> well_formed h' (M(s \<mapsto> as @ ds @ bs @ es))
            \<and> is_linked_f h' = is_linked_f h \<and> stderr h' = stderr h"
proof -
  have l: "list_at h s (as @ bs @ ds @ es)" using w m by (rule wfD1)
  define p where "p = last (s # as)"
  define b where "b = hd bs"
  define eb where "eb = last bs"
  define x where "x = hd ds"
  define ed where "ed = last ds"
  define q where "q = hd (es @ [s])"
  note f = swap_facts[OF l bne dne, folded p_def b_def eb_def x_def ed_def q_def]
  have its: "it_at s (bs @ ds @ es) = Some b" "it_at s (ds @ es) = Some x" "it_at s es = Some q"
    using bne dne by (simp_all add: it_at_hd b_def x_def q_def)
  have core: "well_formed h' (M(s \<mapsto> as @ ds @ bs @ es))"
    if nf: "next_f h' = (next_f h)(eb \<mapsto> q, p \<mapsto> x, ed \<mapsto> b) \<or> next_f h' = (next_f h)(p \<mapsto> x, ed \<mapsto> b, eb \<mapsto> q)"
      and pf: "prev_f h' = (prev_f h)(q \<mapsto> eb, x \<mapsto> p, b \<mapsto> ed) \<or> prev_f h' = (prev_f h)(x \<mapsto> p, b \<mapsto> ed, q \<mapsto> eb)"
      and lf: "is_linked_f h' = is_linked_f h" for h'
  proof -
    have n: "next_f h' p = Some x" "next_f h' ed = Some b" "next_f h' eb = Some q"
      "\<forall>u. u \<noteq> p \<longrightarrow> u \<noteq> ed \<longrightarrow> u \<noteq> eb \<longrightarrow> next_f h' u = next_f h u"
      using nf f(4-6) by auto
    have pr: "prev_f h' q = Some eb" "prev_f h' b = Some ed" "prev_f h' x = Some p"
      "\<forall>u. u \<noteq> q \<longrightarrow> u \<noteq> b \<longrightarrow> u \<noteq> x \<longrightarrow> prev_f h' u = prev_f h u"
      using pf f(7-9) by auto
    have l': "list_at h' s (as @ ds @ bs @ es)"
      by (rule list_at_swap[OF l bne dne])
        (use n pr lf in \<open>simp_all only: p_def b_def eb_def x_def ed_def q_def\<close>)
    have fr: "\<forall>a. a \<notin> set (s # as @ bs @ ds @ es) \<longrightarrow> next_f h' a = next_f h a \<and> prev_f h' a = prev_f h a"
    proof (intro allI impI)
      fix a assume a: "a \<notin> set (s # as @ bs @ ds @ es)"
      then have "a \<noteq> p" "a \<noteq> eb" "a \<noteq> ed" "a \<noteq> b" "a \<noteq> x" "a \<noteq> q" using f(10) by auto
      then show "next_f h' a = next_f h a \<and> prev_f h' a = prev_f h a" using n(4) pr(4) by blast
    qed
    show ?thesis using w m l' fr lf by (rule wf_swap)
  qed
  let ?h1 = "h\<lparr>next_f := (next_f h)(eb \<mapsto> q, p \<mapsto> x, ed \<mapsto> b),
                prev_f := (prev_f h)(q \<mapsto> eb, x \<mapsto> p, b \<mapsto> ed)\<rparr>"
  have "transfer_range h (Some b) (Some x) (Some q) = Inr ?h1"
    using f(1-3) by (simp add: transfer_range_def)
  moreover have "well_formed ?h1 (M(s \<mapsto> as @ ds @ bs @ es))" by (rule core) simp_all
  ultimately show "\<exists>h'. transfer_range h (it_at s (bs @ ds @ es)) (it_at s (ds @ es)) (it_at s es) = Inr h'
            \<and> well_formed h' (M(s \<mapsto> as @ ds @ bs @ es))
            \<and> is_linked_f h' = is_linked_f h \<and> stderr h' = stderr h"
    unfolding its by (intro exI[of _ ?h1]) simp
  let ?h2 = "h\<lparr>next_f := (next_f h)(p \<mapsto> x, ed \<mapsto> b, eb \<mapsto> q),
                prev_f := (prev_f h)(x \<mapsto> p, b \<mapsto> ed, q \<mapsto> eb)\<rparr>"
  have "transfer_range h (Some q) (Some b) (Some x) = Inr ?h2"
    using f(1-3) by (simp add: transfer_range_def)
  moreover have "well_formed ?h2 (M(s \<mapsto> as @ ds @ bs @ es))" by (rule core) simp_all
  ultimately show "\<exists>h'. transfer_range h (it_at s es) (it_at s (bs @ ds @ es)) (it_at s (ds @ es)) = Inr h'
            \<and> well_formed h' (M(s \<mapsto> as @ ds @ bs @ es))
            \<and> is_linked_f h' = is_linked_f h \<and> stderr h' = stderr h"
    unfolding its by (intro exI[of _ ?h2]) simp
qed

lemma wf_splice_range:
  assumes w: "well_formed h M" and ms: "M s = Some (as @ bs)" and mt: "M t = Some (cs @ ds @ es)"
    and st: "s \<noteq> t" and ne: "ds \<noteq> []"
  shows "\<exists>h'. splice_range h s (it_at s bs) t (it_at t (ds @ es)) (it_at t es) = Inr h'
            \<and> well_formed h' (M(s \<mapsto> as @ ds @ bs, t \<mapsto> cs @ es))"
proof -
  have "it_at t (ds @ es) = Some (hd ds)" using ne by (simp add: it_at_hd)
  then show ?thesis using wf_transfer[OF assms] by (auto simp: splice_range_def)
qed

lemma wf_splice_range_same:
  assumes w: "well_formed h M" and m: "M s = Some (as @ bs @ ds @ es)"
    and bne: "bs \<noteq> []" and dne: "ds \<noteq> []"
  shows "\<exists>h'. splice_range h s (it_at s (bs @ ds @ es)) s (it_at s (ds @ es)) (it_at s es) = Inr h'
            \<and> well_formed h' (M(s \<mapsto> as @ ds @ bs @ es))"
    and "\<exists>h'. splice_range h s (it_at s es) s (it_at s (bs @ ds @ es)) (it_at s (ds @ es)) = Inr h'
            \<and> well_formed h' (M(s \<mapsto> as @ ds @ bs @ es))"
  using wf_transfer_same[OF assms] unfolding splice_range_def by blast+

lemma splice_cell_step:
  assumes l: "list_at h t (cs @ x # es)"
  shows "splice_cell h s pos t (Some x) = splice_range h s pos t (Some x) (it_at t es)"
proof -
  have "x \<noteq> t" using l by (auto simp: list_at_def)
  moreover have "next_f h x = it_at t es"
    using list_at_next[of h t "cs @ [x]" es] l by (simp add: it_at_hd)
  ultimately show ?thesis by (simp add: splice_cell_def end_it_def incr_def)
qed

lemma wf_splice_cell:
  assumes w: "well_formed h M" and ms: "M s = Some (as @ bs)" and mt: "M t = Some (cs @ x # es)"
    and st: "s \<noteq> t"
  shows "\<exists>h'. splice_cell h s (it_at s bs) t (Some x) = Inr h'
            \<and> well_formed h' (M(s \<mapsto> as @ x # bs, t \<mapsto> cs @ es))"
proof -
  have l: "list_at h t (cs @ x # es)" using w mt by (rule wfD1)
  have mt': "M t = Some (cs @ [x] @ es)" using mt by simp
  have "it_at t ([x] @ es) = Some x" by (simp add: it_at_def)
  then show ?thesis
    using wf_splice_range[OF w ms mt' st] splice_cell_step[OF l, of s "it_at s bs"] by auto
qed

lemma wf_splice_cell_before:
  assumes w: "well_formed h M" and m: "M s = Some (as @ bs @ x # es)" and bne: "bs \<noteq> []"
  shows "\<exists>h'. splice_cell h s (it_at s (bs @ x # es)) s (Some x) = Inr h'
            \<and> well_formed h' (M(s \<mapsto> as @ x # bs @ es))"
proof -
  have l: "list_at h s ((as @ bs) @ x # es)" using wfD1[OF w m] by simp
  have m': "M s = Some (as @ bs @ [x] @ es)" using m by simp
  have "it_at s ([x] @ es) = Some x" by (simp add: it_at_def)
  then show ?thesis
    using wf_splice_range_same(1)[OF w m' bne] splice_cell_step[OF l, of s "it_at s (bs @ x # es)"]
    by auto
qed

lemma wf_splice_cell_after:
  assumes w: "well_formed h M" and m: "M s = Some (as @ x # ds @ es)" and dne: "ds \<noteq> []"
  shows "\<exists>h'. splice_cell h s (it_at s es) s (Some x) = Inr h'
            \<and> well_formed h' (M(s \<mapsto> as @ ds @ x # es))"
proof -
  have l: "list_at h s (as @ x # ds @ es)" using w m by (rule wfD1)
  have m': "M s = Some (as @ [x] @ ds @ es)" using m by simp
  have "it_at s ([x] @ ds @ es) = Some x" by (simp add: it_at_def)
  then show ?thesis
    using wf_splice_range_same(2)[OF w m' _ dne] splice_cell_step[OF l, of s "it_at s es"]
    by auto
qed

lemma exec_refines:
  assumes w: "well_formed h M" and a: "astep M c M'"
  shows "\<exists>h'. exec nd h c = Inr h' \<and> well_formed h' M'"
  using a
proof cases
  case (new_list s)
  then show ?thesis using wf_new_list[OF w] by simp
next
  case (new_node x)
  then show ?thesis using wf_new_node[OF w] by simp
next
  case (push_back s xs x)
  then show ?thesis using wf_push_back[OF w, of s xs x nd] by auto
next
  case (push_front s xs x)
  then show ?thesis using wf_push_front[OF w, of s xs x nd] by auto
next
  case (insert s as bs x)
  then show ?thesis using wf_insert_at[OF w, of s as bs x nd] by auto
next
  case (pop_front s x xs)
  then show ?thesis using wf_pop_front[OF w, of s x xs nd] by auto
next
  case (pop_back s xs x)
  then show ?thesis using wf_pop_back[OF w, of s xs x nd] by auto
next
  case (erase s as x bs)
  then show ?thesis using wf_erase[OF w, of s as x bs nd] by auto
next
  case (unlink s as x bs)
  then show ?thesis using wf_unlink[OF w, of s as x bs nd] by auto
next
  case (splice s as bs t ys)
  then show ?thesis using wf_splice[OF w, of s as bs t ys] by auto
next
  case (splice_self s xs pos)
  then show ?thesis using w by (simp add: splice_l_def)
next
  case (splice_cell_end t ys s pos)
  then show ?thesis using w by (simp add: splice_cell_def)
next
  case (splice_cell s as bs t cs x es)
  then show ?thesis using wf_splice_cell[OF w, of s as bs t cs x es] by auto
next
  case (splice_cell_before s as bs x es)
  then show ?thesis using wf_splice_cell_before[OF w, of s as bs x es] by auto
next
  case (splice_cell_after s as x ds es)
  then show ?thesis using wf_splice_cell_after[OF w, of s as x ds es] by auto
next
  case (splice_range s as bs t cs ds es)
  then show ?thesis using wf_splice_range[OF w, of s as bs t cs ds es] by auto
next
  case (splice_range_before s as bs ds es)
  then show ?thesis using wf_splice_range_same(1)[OF w, of s as bs ds es] by auto
next
  case (splice_range_after s as bs ds es)
  then show ?thesis using wf_splice_range_same(2)[OF w, of s as bs ds es] by auto
qed

lemma exec_all_refines:
  assumes "asteps M cs M'" and "well_formed h M"
  shows "\<exists>h'. exec_all nd h cs = Inr h' \<and> well_formed h' M'"
  using assms
proof (induction arbitrary: h rule: asteps.induct)
  case (nil M)
  then show ?case by simp
next
  case (cons M c M1 cs M2)
  obtain h1 where "exec nd h c = Inr h1" "well_formed h1 M1"
    using exec_refines[OF cons.prems cons.hyps(1), of nd] by blast
  then show ?case using cons.IH[of h1] by simp
qed

section \<open>Further facts about the operations\<close>


lemma well_formed_stderr: "well_formed (h\<lparr>stderr := e\<rparr>) M = well_formed h M"
  by (simp add: well_formed_def list_at_def)

lemma wf_destroy:
  assumes w: "well_formed h M" and m: "M s = Some (as @ x # bs)"
  shows "\<exists>h'. destroy nd h x = Inr h' \<and> well_formed h' (M(s \<mapsto> as @ bs))
            \<and> is_linked_f h' = (is_linked_f h)(x := False)
            \<and> stderr h' = (if nd then stderr h else stderr h @ [warning])"
proof -
  define h1 where "h1 = (if \<not> nd then h\<lparr>stderr := stderr h @ [warning]\<rparr> else h)"
  have w1: "well_formed h1 M" using w by (simp add: h1_def well_formed_stderr)
  have "list_at h s (as @ x # bs)" using w m by (rule wfD1)
  then have fl: "is_linked_f h x" by (simp add: list_at_def)
  have d: "destroy nd h x = unlink nd h1 x" using fl by (simp add: destroy_def h1_def)
  obtain h' where "unlink nd h1 x = Inr h'" "well_formed h' (M(s \<mapsto> as @ bs))"
    "is_linked_f h' = (is_linked_f h1)(x := False)" "stderr h' = stderr h1"
    using wf_unlink[OF w1 m, of nd] by blast
  then show ?thesis using d by (auto simp: h1_def)
qed

lemma wf_extract_front:
  assumes w: "well_formed h M" and ms: "M s = Some xs" and mo: "M out = Some ys" and ne: "s \<noteq> out"
  shows "\<exists>h'. extract_front h s out n = Inr (h', min n (length xs))
            \<and> well_formed h' (M(out \<mapsto> ys @ take n xs, s \<mapsto> drop n xs))
            \<and> (min n (length xs) = 0 \<longrightarrow> h' = h)
            \<and> is_linked_f h' = is_linked_f h \<and> stderr h' = stderr h"
proof -
  define k where "k = min n (length xs)"
  have l: "list_at h s xs" using w ms by (rule wfD1)
  have tk: "take n xs = take k xs" and dk: "drop n xs = drop k xs" by (simp_all add: k_def min_def)
  have "find_split h s (it_at s (drop 0 xs)) 0 n = Inr (it_at s (drop k xs), k)"
    unfolding k_def by (rule find_split_list[OF l]) simp
  then have fs: "find_split h s (begin_it h s) 0 n = Inr (it_at s (drop k xs), k)"
    using list_at_begin[OF l] by simp
  have main: "\<exists>h'. extract_front h s out n = Inr (h', k)
            \<and> well_formed h' (M(out \<mapsto> ys @ take k xs, s \<mapsto> drop k xs))
            \<and> (k = 0 \<longrightarrow> h' = h)
            \<and> is_linked_f h' = is_linked_f h \<and> stderr h' = stderr h"
  proof (cases "k = 0")
    case True
    then have "take k xs = []" "drop k xs = xs" by simp_all
    then have "M(out \<mapsto> ys @ take k xs, s \<mapsto> drop k xs) = M"
      using ms mo by (auto simp: fun_eq_iff)
    moreover have "extract_front h s out n = Inr (h, k)" using fs True by (simp add: extract_front_def)
    ultimately show ?thesis using w by simp
  next
    case False
    then have xne: "xs \<noteq> []" and tne: "take k xs \<noteq> []" by (auto simp: k_def)
    have b: "begin_it h s = Some (hd (take k xs))"
      using list_at_begin[OF l] xne False by (simp add: it_at_hd)
    have e: "extract_front h s out n =
            (case transfer_range h (it_at out []) (Some (hd (take k xs))) (it_at s (drop k xs)) of
               Inl e \<Rightarrow> Inl e | Inr h' \<Rightarrow> Inr (h', k))"
      using fs False b by (simp add: extract_front_def splice_range_def it_at_hd end_it_def)
    obtain h' where
      "transfer_range h (it_at out []) (Some (hd (take k xs))) (it_at s (drop k xs)) = Inr h'"
      "well_formed h' (M(out \<mapsto> ys @ take k xs @ [], s \<mapsto> [] @ drop k xs))"
      "is_linked_f h' = is_linked_f h" "stderr h' = stderr h"
      using wf_transfer[of h M out ys "[]" s "[]" "take k xs" "drop k xs"] w ms mo ne tne by auto
    then show ?thesis using False e by simp
  qed
  show ?thesis unfolding tk dk k_def[symmetric] by (rule main)
qed

lemma ex_heap_list: "list_at ex_heap 0 [1, 2]"
  by (simp add: list_at_def ex_heap_def)

lemma ex_well_formed: "well_formed ex_heap ex_lists"
  unfolding well_formed_def
proof (intro conjI allI impI)
  fix s xs assume "ex_lists s = Some xs"
  then have "s = 0 \<and> xs = [1, 2]" by (auto simp: ex_lists_def split: if_splits)
  then show "list_at ex_heap s xs" using ex_heap_list by simp
next
  fix s t xs ys assume "ex_lists s = Some xs" "ex_lists t = Some ys" "s \<noteq> t"
  then show "set (s # xs) \<inter> set (t # ys) = {}" by (auto simp: ex_lists_def split: if_splits)
next
  fix a assume "is_linked_f ex_heap a"
  then have "a \<in> set [1, 2]" by (auto simp: ex_heap_def)
  then show "\<exists>s xs. ex_lists s = Some xs \<and> a \<in> set xs"
    by (intro exI[of _ 0] exI[of _ "[1, 2]"]) (simp add: ex_lists_def)
qed


lemma ex_two_well_formed: "well_formed ex_two ex_two_lists"
  unfolding well_formed_def
proof (intro conjI allI impI)
  fix s xs assume "ex_two_lists s = Some xs"
  then have "(s = 0 \<and> xs = [1, 2]) \<or> (s = 3 \<and> xs = [4])"
    by (auto simp: ex_two_lists_def split: if_splits)
  then show "list_at ex_two s xs" by (auto simp: list_at_def ex_two_def)
next
  fix s t xs ys assume "ex_two_lists s = Some xs" "ex_two_lists t = Some ys" "s \<noteq> t"
  then show "set (s # xs) \<inter> set (t # ys) = {}" by (auto simp: ex_two_lists_def split: if_splits)
next
  fix a assume "is_linked_f ex_two a"
  then have "a \<in> set [1, 2] \<or> a \<in> set [4]" by (auto simp: ex_two_def)
  then show "\<exists>s xs. ex_two_lists s = Some xs \<and> a \<in> set xs"
  proof
    assume "a \<in> set [1, 2]"
    then show ?thesis by (intro exI[of _ 0] exI[of _ "[1, 2]"]) (simp add: ex_two_lists_def)
  next
    assume "a \<in> set [4]"
    then show ?thesis by (intro exI[of _ 3] exI[of _ "[4]"]) (simp add: ex_two_lists_def)
  qed
qed

lemma well_formed_flags:
  assumes "well_formed h M"
  shows "is_linked h a = (\<exists>t ts. M t = Some ts \<and> a \<in> set ts)"
proof
  assume "is_linked h a"
  then show "\<exists>t ts. M t = Some ts \<and> a \<in> set ts" using wfD3[OF assms] by (simp add: is_linked_def)
next
  assume "\<exists>t ts. M t = Some ts \<and> a \<in> set ts"
  then obtain t ts where "M t = Some ts" "a \<in> set ts" by blast
  then show "is_linked h a" using wfD1[OF assms, of t ts] by (simp add: list_at_def list_all_iff is_linked_def)
qed


text \<open>
  An empty run is outside the contract above: on the list holding 1 and 2,
  \<^verbatim>\<open>splice_range(end(), list, first, first)\<close> with \<^verbatim>\<open>first\<close> at 1 returns a store in
  which the list at 0 is empty while both elements are still flagged linked.
\<close>

lemma splice_range_empty_run_detaches:
  "splice_range ex_heap 0 (Some 0) 0 (Some 1) (Some 1) = Inr ex_detached
   \<and> list_at ex_detached 0 [] \<and> is_linked ex_detached 1 \<and> is_linked ex_detached 2"
proof -
  have "transfer_range ex_heap (Some 0) (Some 1) (Some 1) = Inr ex_detached"
    by (auto simp: transfer_range_def ex_heap_def ex_detached_def fun_eq_iff)
  then show ?thesis
    by (simp add: splice_range_def list_at_def is_linked_def ex_detached_def)
qed

section \<open>The claims\<close>

text \<open>
  C10. For every list and every iterator \<open>p\<close>, \<^verbatim>\<open>erase_range(p, p)\<close> returns, the
  store it leaves is the store it was given (so no element is unlinked, and the
  element sequence and every \<^verbatim>\<open>is_linked()\<close> value are unchanged), and the iterator it
  returns is \<open>p\<close>.
\<close>

theorem erase_range_empty_range:
  "erase_range ndebug h s p p = Some (Inr (h, p))"
  unfolding erase_range_def by (subst erase_loop.simps) simp

text \<open>
  C3. In a list holding \<open>as @ x # bs\<close>, \<^verbatim>\<open>erase\<close> at the position of \<open>x\<close> (which is
  not \<^verbatim>\<open>end()\<close>) returns; afterwards the list holds \<open>as @ bs\<close>, \<open>x\<close> is not linked,
  every other object's \<^verbatim>\<open>is_linked()\<close> is as before, and the iterator returned is at
  the element that followed \<open>x\<close>, or \<^verbatim>\<open>end()\<close> when \<open>x\<close> was last.
\<close>

theorem erase_unlinks_and_returns_next:
  assumes "list_at h s (as @ x # bs)"
  shows "\<exists>h'. erase ndebug h s (Some x) = Inr (h', it_at s bs)
           \<and> list_at h' s (as @ bs)
           \<and> \<not> is_linked h' x
           \<and> (\<forall>y. y \<noteq> x \<longrightarrow> is_linked h' y = is_linked h y)"
proof -
  have xs: "x \<noteq> s" using assms by (auto simp: list_at_def)
  have n: "next_f h x = it_at s bs"
    using list_at_next[of h s "as @ [x]" bs] assms by (simp add: it_at_hd)
  obtain h' where "unlink ndebug h x = Inr h'" "list_at h' s (as @ bs)"
    "is_linked_f h' = (is_linked_f h)(x := False)"
    using list_at_unlink[OF assms, of ndebug] by blast
  then show ?thesis using xs n
    by (simp add: erase_def assert_holds_def end_it_def is_linked_def)
qed

theorem erase_unlinks_and_returns_next_witness:
  "list_at ex_heap 0 ([] @ 1 # [2])
   \<and> (\<exists>h'. erase False ex_heap 0 (Some 1) = Inr (h', Some 2)
          \<and> list_at h' 0 [2] \<and> \<not> is_linked h' 1 \<and> is_linked h' 2)"
proof -
  have l: "list_at ex_heap 0 ([] @ 1 # [2])" using ex_heap_list by simp
  have "is_linked ex_heap 2" by (simp add: is_linked_def ex_heap_def)
  then show ?thesis
    using l erase_unlinks_and_returns_next[OF l, of False] by (auto simp: it_at_def)
qed

text \<open>
  C7. On a list whose \<^verbatim>\<open>empty()\<close> holds, \<^verbatim>\<open>try_pop_front\<close> and \<^verbatim>\<open>try_pop_back\<close>
  return the null pointer and leave the store as it was. On a list holding
  \<open>x # xs\<close>, \<^verbatim>\<open>try_pop_front\<close> returns the address of \<open>x\<close> and leaves the list
  holding \<open>xs\<close> with \<open>x\<close> not linked; on a list holding \<open>ys @ [y]\<close>,
  \<^verbatim>\<open>try_pop_back\<close> returns the address of \<open>y\<close> and leaves \<open>ys\<close> with \<open>y\<close> not linked.
\<close>

theorem try_pop_results:
  "(empty_l h s \<longrightarrow> try_pop_front ndebug h s = Inr (h, None) \<and> try_pop_back ndebug h s = Inr (h, None))
   \<and> (list_at h s (x # xs) \<longrightarrow>
        (\<exists>h'. try_pop_front ndebug h s = Inr (h', Some x) \<and> list_at h' s xs \<and> \<not> is_linked h' x))
   \<and> (list_at h s (ys @ [y]) \<longrightarrow>
        (\<exists>h'. try_pop_back ndebug h s = Inr (h', Some y) \<and> list_at h' s ys \<and> \<not> is_linked h' y))"
proof (intro conjI impI)
  assume "empty_l h s"
  then show "try_pop_front ndebug h s = Inr (h, None)" by (simp add: try_pop_front_def)
next
  assume "empty_l h s"
  then show "try_pop_back ndebug h s = Inr (h, None)" by (simp add: try_pop_back_def)
next
  assume l: "list_at h s (x # xs)"
  have e: "\<not> empty_l h s" using list_at_empty[OF l] by simp
  have n: "next_f h s = Some x" using list_at_next[of h s "[]" "x # xs"] l by simp
  obtain h' where "unlink ndebug h x = Inr h'" "list_at h' s ([] @ xs)"
    "is_linked_f h' = (is_linked_f h)(x := False)"
    using list_at_unlink[of h s "[]" x xs ndebug] l by auto
  then show "\<exists>h'. try_pop_front ndebug h s = Inr (h', Some x) \<and> list_at h' s xs \<and> \<not> is_linked h' x"
    using e n
    by (simp add: try_pop_front_def front_l_def pop_front_def begin_it_def assert_holds_def is_linked_def)
next
  assume l: "list_at h s (ys @ [y])"
  have e: "\<not> empty_l h s" using list_at_empty[OF l] by simp
  have n: "prev_f h s = Some y" using list_at_prev[of h s "ys @ [y]" "[]"] l by simp
  obtain h' where "unlink ndebug h y = Inr h'" "list_at h' s (ys @ [])"
    "is_linked_f h' = (is_linked_f h)(y := False)"
    using list_at_unlink[of h s ys y "[]" ndebug] l by auto
  then show "\<exists>h'. try_pop_back ndebug h s = Inr (h', Some y) \<and> list_at h' s ys \<and> \<not> is_linked h' y"
    using e n
    by (simp add: try_pop_back_def back_l_def pop_back_def decr_def end_it_def assert_holds_def is_linked_def)
qed

theorem try_pop_results_witness:
  "empty_l (IntrusiveList ex_empty 0) 0
   \<and> try_pop_front False (IntrusiveList ex_empty 0) 0 = Inr (IntrusiveList ex_empty 0, None)
   \<and> try_pop_back False (IntrusiveList ex_empty 0) 0 = Inr (IntrusiveList ex_empty 0, None)
   \<and> list_at ex_heap 0 (1 # [2])
   \<and> (\<exists>h'. try_pop_front False ex_heap 0 = Inr (h', Some 1) \<and> list_at h' 0 [2] \<and> \<not> is_linked h' 1)
   \<and> list_at ex_heap 0 ([1] @ [2])
   \<and> (\<exists>h'. try_pop_back False ex_heap 0 = Inr (h', Some 2) \<and> list_at h' 0 [1] \<and> \<not> is_linked h' 2)"
proof -
  have e: "empty_l (IntrusiveList ex_empty 0) 0"
    by (simp add: empty_l_def IntrusiveList_def init_sentinel_def NodeBase_def)
  have l1: "list_at ex_heap 0 (1 # [2])" and l2: "list_at ex_heap 0 ([1] @ [2])"
    using ex_heap_list by simp_all
  show ?thesis
    using e l1 l2
      try_pop_results[of "IntrusiveList ex_empty 0" 0 False 1 "[2]" "[1]" 2]
      try_pop_results[of ex_heap 0 False 1 "[2]" "[1]" 2]
    by simp
qed

text \<open>
  C8. \<^verbatim>\<open>insert(end(), x)\<close> and \<^verbatim>\<open>push_back(x)\<close> leave the same store, whatever the
  store and \<open>x\<close> (both run \<^verbatim>\<open>insert_before\<close> on the sentinel). In a list holding
  \<open>as @ bs\<close>, with \<open>x\<close> an unlinked element (so not the sentinel), \<^verbatim>\<open>insert\<close> at
  the position of the head of \<open>bs\<close> (\<^verbatim>\<open>end()\<close> when \<open>bs\<close> is empty) returns, the list
  then holds \<open>as @ x # bs\<close>, \<open>x\<close> is linked and the iterator returned is at \<open>x\<close>;
  \<^verbatim>\<open>push_back\<close> makes \<open>x\<close> the last element.
\<close>

theorem insert_links_before_position:
  "(case insert_at ndebug h s (end_it s) x of Inl e \<Rightarrow> Inl e | Inr (h', it) \<Rightarrow> Inr h')
     = push_back ndebug h s x
   \<and> (list_at h s (as @ bs) \<and> x \<noteq> s \<and> \<not> is_linked h x \<longrightarrow>
        (\<exists>h'. insert_at ndebug h s (it_at s bs) x = Inr (h', Some x)
              \<and> list_at h' s (as @ x # bs) \<and> is_linked h' x))
   \<and> (list_at h s xs \<and> x \<noteq> s \<and> \<not> is_linked h x \<longrightarrow>
        (\<exists>h'. push_back ndebug h s x = Inr h'
              \<and> insert_at ndebug h s (end_it s) x = Inr (h', Some x)
              \<and> list_at h' s (xs @ [x]) \<and> is_linked h' x))"
proof (intro conjI impI)
  show "(case insert_at ndebug h s (end_it s) x of Inl e \<Rightarrow> Inl e | Inr (h', it) \<Rightarrow> Inr h')
          = push_back ndebug h s x"
    by (simp add: insert_at_def push_back_def end_it_def split: sum.splits)
next
  assume a: "list_at h s (as @ bs) \<and> x \<noteq> s \<and> \<not> is_linked h x"
  then have l: "list_at h s (as @ bs)" and xs: "x \<noteq> s" and xl: "\<not> is_linked_f h x"
    by (simp_all add: is_linked_def)
  let ?h = "link_between h x (last (s # as)) (hd (bs @ [s]))"
  have "insert_before ndebug h (it_at s bs) x = Inr ?h" using l xs xl by (rule insert_before_list_at)
  moreover have "list_at ?h s (as @ x # bs)" using l xs xl by (rule list_at_link_between)
  moreover have "is_linked ?h x" by (simp add: is_linked_def link_between_def set_linked_def)
  ultimately show "\<exists>h'. insert_at ndebug h s (it_at s bs) x = Inr (h', Some x)
              \<and> list_at h' s (as @ x # bs) \<and> is_linked h' x"
    by (simp add: insert_at_def)
next
  assume a: "list_at h s xs \<and> x \<noteq> s \<and> \<not> is_linked h x"
  then have l: "list_at h s (xs @ [])" and xs: "x \<noteq> s" and xl: "\<not> is_linked_f h x"
    by (simp_all add: is_linked_def)
  let ?h = "link_between h x (last (s # xs)) (hd ([] @ [s]))"
  have "insert_before ndebug h (it_at s []) x = Inr ?h" using l xs xl by (rule insert_before_list_at)
  moreover have "list_at ?h s (xs @ x # [])" using l xs xl by (rule list_at_link_between)
  moreover have "is_linked ?h x" by (simp add: is_linked_def link_between_def set_linked_def)
  ultimately show "\<exists>h'. push_back ndebug h s x = Inr h'
              \<and> insert_at ndebug h s (end_it s) x = Inr (h', Some x)
              \<and> list_at h' s (xs @ [x]) \<and> is_linked h' x"
    by (simp add: insert_at_def push_back_def it_at_def end_it_def)
qed

theorem insert_links_before_position_witness:
  "list_at ex_heap 0 ([1] @ [2]) \<and> (3::nat) \<noteq> 0 \<and> \<not> is_linked ex_heap 3
   \<and> (\<exists>h'. insert_at False ex_heap 0 (Some 2) 3 = Inr (h', Some 3)
          \<and> list_at h' 0 [1, 3, 2] \<and> is_linked h' 3)
   \<and> (\<exists>h'. push_back False ex_heap 0 3 = Inr h'
          \<and> insert_at False ex_heap 0 (end_it 0) 3 = Inr (h', Some 3)
          \<and> list_at h' 0 [1, 2, 3] \<and> is_linked h' 3)"
proof -
  have l: "list_at ex_heap 0 ([1] @ [2])" and l': "list_at ex_heap 0 [1, 2]"
    using ex_heap_list by simp_all
  have u: "\<not> is_linked ex_heap 3" by (simp add: is_linked_def ex_heap_def)
  show ?thesis
    using l l' u insert_links_before_position[of False ex_heap 0 3 "[1]" "[2]" "[1, 2]"]
    by (simp add: it_at_def)
qed

text \<open>
  C9. In a well-formed store where the list at \<open>s\<close> holds \<open>as @ x # bs\<close>,
  \<^verbatim>\<open>x.unlink()\<close> returns; the list at \<open>s\<close> then holds \<open>as @ bs\<close>, every other list
  holds the elements it held, in the same order, \<open>x\<close> is not linked and every other
  object's \<^verbatim>\<open>is_linked()\<close> is as before.
\<close>

theorem unlink_changes_only_the_node:
  assumes "well_formed h M" and "M s = Some (as @ x # bs)"
  shows "\<exists>h'. unlink ndebug h x = Inr h'
           \<and> list_at h' s (as @ bs)
           \<and> (\<forall>t ys. t \<noteq> s \<and> M t = Some ys \<longrightarrow> list_at h' t ys)
           \<and> \<not> is_linked h' x
           \<and> (\<forall>y. y \<noteq> x \<longrightarrow> is_linked h' y = is_linked h y)
           \<and> well_formed h' (M(s \<mapsto> as @ bs))"
proof -
  obtain h' where u: "unlink ndebug h x = Inr h'" and w: "well_formed h' (M(s \<mapsto> as @ bs))"
    and f: "is_linked_f h' = (is_linked_f h)(x := False)"
    using wf_unlink[OF assms, of ndebug] by blast
  have "list_at h' s (as @ bs)" using w by (rule wfD1) simp
  moreover have "list_at h' t ys" if "t \<noteq> s \<and> M t = Some ys" for t ys
    using w by (rule wfD1) (use that in simp)
  ultimately show ?thesis using u w f by (auto simp: is_linked_def)
qed

theorem unlink_changes_only_the_node_witness:
  "well_formed ex_heap ex_lists \<and> ex_lists 0 = Some ([] @ 1 # [2])
   \<and> (\<exists>h'. unlink False ex_heap 1 = Inr h' \<and> list_at h' 0 [2]
          \<and> \<not> is_linked h' 1 \<and> is_linked h' 2)"
proof -
  have m: "ex_lists 0 = Some ([] @ 1 # [2])" by (simp add: ex_lists_def)
  have i: "is_linked ex_heap 2" by (simp add: is_linked_def ex_heap_def)
  obtain h' where "unlink False ex_heap 1 = Inr h'" "list_at h' 0 ([] @ [2])" "\<not> is_linked h' 1"
    "\<forall>y. y \<noteq> 1 \<longrightarrow> is_linked h' y = is_linked ex_heap y"
    using unlink_changes_only_the_node[OF ex_well_formed m, of False] by blast
  then have "\<exists>h'. unlink False ex_heap 1 = Inr h' \<and> list_at h' 0 [2]
          \<and> \<not> is_linked h' 1 \<and> is_linked h' 2"
    using i by simp
  then show ?thesis using ex_well_formed m by blast
qed

text \<open>
  C1. In a well-formed store where list \<open>a\<close> holds \<open>as @ bs\<close> and another list
  \<open>b\<close> holds \<open>ys\<close>, \<^verbatim>\<open>a.splice(pos, b)\<close> at the position of the head of \<open>bs\<close>
  returns; \<open>a\<close> then holds \<open>as @ ys @ bs\<close>, \<open>b\<close> is empty, every other list is as
  it was, and the store is unchanged when \<open>ys\<close> is empty. Whatever the position,
  the call leaves the store as it is when \<^verbatim>\<open>b.empty()\<close> holds and when \<open>b\<close> is
  \<open>a\<close> itself.
\<close>

theorem splice_moves_all_elements:
  assumes "well_formed h M" and "M a = Some (as @ bs)" and "M b = Some ys"
  shows "(a \<noteq> b \<longrightarrow>
           (\<exists>h'. splice_l h a (it_at a bs) b = Inr h'
                 \<and> list_at h' a (as @ ys @ bs) \<and> list_at h' b []
                 \<and> well_formed h' (M(a \<mapsto> as @ ys @ bs, b \<mapsto> []))
                 \<and> (ys = [] \<longrightarrow> h' = h)))
         \<and> (empty_l h b \<longrightarrow> splice_l h a pos b = Inr h)
         \<and> splice_l h a pos a = Inr h"
proof (intro conjI impI)
  assume ne: "a \<noteq> b"
  obtain h' where s: "splice_l h a (it_at a bs) b = Inr h'"
    and w: "well_formed h' (M(a \<mapsto> as @ ys @ bs, b \<mapsto> []))"
    using wf_splice[OF assms ne] by blast
  have 1: "list_at h' a (as @ ys @ bs)" using w by (rule wfD1) (use ne in simp)
  have 2: "list_at h' b []" using w by (rule wfD1) simp
  have 3: "h' = h" if "ys = []"
  proof -
    have "list_at h b ys" using assms(1,3) by (rule wfD1)
    then have "empty_l h b" using that by (simp add: list_at_empty)
    then show ?thesis using s by (simp add: splice_l_def)
  qed
  show "\<exists>h'. splice_l h a (it_at a bs) b = Inr h'
                 \<and> list_at h' a (as @ ys @ bs) \<and> list_at h' b []
                 \<and> well_formed h' (M(a \<mapsto> as @ ys @ bs, b \<mapsto> []))
                 \<and> (ys = [] \<longrightarrow> h' = h)"
    using s w 1 2 3 by blast
next
  assume "empty_l h b"
  then show "splice_l h a pos b = Inr h" by (simp add: splice_l_def)
next
  show "splice_l h a pos a = Inr h" by (simp add: splice_l_def)
qed

theorem splice_moves_all_elements_witness:
  "well_formed ex_two ex_two_lists \<and> ex_two_lists 0 = Some ([1] @ [2]) \<and> ex_two_lists 3 = Some [4]
   \<and> (\<exists>h'. splice_l ex_two 0 (Some 2) 3 = Inr h' \<and> list_at h' 0 [1, 4, 2] \<and> list_at h' 3 [])
   \<and> empty_l (IntrusiveList ex_two 5) 5
   \<and> splice_l (IntrusiveList ex_two 5) 0 (Some 2) 5 = Inr (IntrusiveList ex_two 5)
   \<and> splice_l ex_two 0 (Some 2) 0 = Inr ex_two"
proof -
  have m: "ex_two_lists 0 = Some ([1] @ [2])" "ex_two_lists 3 = Some [4]"
    by (simp_all add: ex_two_lists_def)
  have e: "empty_l (IntrusiveList ex_two 5) 5"
    by (simp add: empty_l_def IntrusiveList_def init_sentinel_def NodeBase_def)
  note t = splice_moves_all_elements[OF ex_two_well_formed m]
  have "\<exists>h'. splice_l ex_two 0 (it_at 0 [2]) 3 = Inr h'
          \<and> list_at h' 0 ([1] @ [4] @ [2]) \<and> list_at h' 3 []"
    using t[THEN conjunct1] by auto
  then have 1: "\<exists>h'. splice_l ex_two 0 (Some 2) 3 = Inr h' \<and> list_at h' 0 [1, 4, 2] \<and> list_at h' 3 []"
    by (simp add: it_at_def)
  have 2: "splice_l ex_two 0 (Some 2) 0 = Inr ex_two"
    using t[THEN conjunct2, THEN conjunct2] .
  have 3: "splice_l (IntrusiveList ex_two 5) 0 (Some 2) 5 = Inr (IntrusiveList ex_two 5)"
    by (simp add: splice_l_def e)
  show ?thesis using ex_two_well_formed m e 1 2 3 by blast
qed

text \<open>
  C2, as amended. In a well-formed store where the source list \<open>s\<close> holds \<open>xs\<close>
  and a destination list \<open>out\<close> other than the source holds \<open>ys\<close>,
  \<^verbatim>\<open>extract_front(out, n)\<close> returns \<open>min n (length xs)\<close>; \<open>out\<close> then holds
  \<open>ys @ take n xs\<close> and the source holds \<open>drop n xs\<close>; when the source is empty or
  \<open>n = 0\<close> the result is 0 and the store is unchanged.
\<close>

theorem extract_front_moves_prefix:
  assumes "well_formed h M" and "M s = Some xs" and "M out = Some ys" and "s \<noteq> out"
  shows "\<exists>h'. extract_front h s out n = Inr (h', min n (length xs))
           \<and> list_at h' out (ys @ take n xs) \<and> list_at h' s (drop n xs)
           \<and> well_formed h' (M(out \<mapsto> ys @ take n xs, s \<mapsto> drop n xs))
           \<and> (xs = [] \<or> n = 0 \<longrightarrow> min n (length xs) = 0 \<and> h' = h)"
proof -
  obtain h' where e: "extract_front h s out n = Inr (h', min n (length xs))"
    and w: "well_formed h' (M(out \<mapsto> ys @ take n xs, s \<mapsto> drop n xs))"
    and z: "min n (length xs) = 0 \<longrightarrow> h' = h"
    using wf_extract_front[OF assms, of n] by auto
  have 1: "list_at h' out (ys @ take n xs)" using w by (rule wfD1) (use assms(4) in simp)
  have 2: "list_at h' s (drop n xs)" using w by (rule wfD1) simp
  show ?thesis using e w z 1 2 by auto
qed

theorem extract_front_moves_prefix_witness:
  "well_formed ex_two ex_two_lists \<and> ex_two_lists 0 = Some [1, 2] \<and> ex_two_lists 3 = Some [4]
   \<and> (0::nat) \<noteq> 3
   \<and> (\<exists>h'. extract_front ex_two 0 3 1 = Inr (h', 1) \<and> list_at h' 3 [4, 1] \<and> list_at h' 0 [2])
   \<and> (\<exists>h'. extract_front ex_two 0 3 5 = Inr (h', 2) \<and> list_at h' 3 [4, 1, 2] \<and> list_at h' 0 [])
   \<and> extract_front ex_two 0 3 0 = Inr (ex_two, 0)"
proof -
  have m: "ex_two_lists 0 = Some [1, 2]" "ex_two_lists 3 = Some [4]"
    by (simp_all add: ex_two_lists_def)
  have n: "(0::nat) \<noteq> 3" by simp
  note t = extract_front_moves_prefix[OF ex_two_well_formed m n]
  obtain h1 where "extract_front ex_two 0 3 1 = Inr (h1, min 1 (length [1::nat, 2]))"
    "list_at h1 3 ([4] @ take 1 [1, 2])" "list_at h1 0 (drop 1 [1, 2])"
    using t[of 1] by blast
  then have 1: "\<exists>h'. extract_front ex_two 0 3 1 = Inr (h', 1) \<and> list_at h' 3 [4, 1] \<and> list_at h' 0 [2]"
    by simp
  obtain h2 where "extract_front ex_two 0 3 5 = Inr (h2, min 5 (length [1::nat, 2]))"
    "list_at h2 3 ([4] @ take 5 [1, 2])" "list_at h2 0 (drop 5 [1, 2])"
    using t[of 5] by blast
  then have 2: "\<exists>h'. extract_front ex_two 0 3 5 = Inr (h', 2) \<and> list_at h' 3 [4, 1, 2] \<and> list_at h' 0 []"
    by simp
  obtain h3 where "extract_front ex_two 0 3 0 = Inr (h3, min 0 (length [1::nat, 2]))"
    "[1::nat, 2] = [] \<or> (0::nat) = 0 \<longrightarrow> min 0 (length [1::nat, 2]) = 0 \<and> h3 = ex_two"
    using t[of 0] by blast
  then have 3: "extract_front ex_two 0 3 0 = Inr (ex_two, 0)" by simp
  show ?thesis using ex_two_well_formed m n 1 2 3 by blast
qed

text \<open>
  C2 as stated, for every destination list, fails when the destination is the
  source itself: on the list holding 1 and 2, \<^verbatim>\<open>extract_front\<close> into the same list
  with \<open>n = 1\<close> returns 1 and leaves the list holding 2 and then 1, not the one
  remaining element \<open>drop 1 [1, 2]\<close>.
\<close>

theorem extract_front_same_list_counterexample:
  "list_at ex_heap 0 [1, 2]
   \<and> extract_front ex_heap 0 0 1 = Inr (ex_rotated, 1)
   \<and> list_at ex_rotated 0 [2, 1]
   \<and> forward ex_rotated 0 = Some (Inr [2, 1])
   \<and> \<not> list_at ex_rotated 0 (drop 1 [1, 2])"
proof -
  have b: "begin_it ex_heap 0 = Some 1" by (simp add: begin_it_def ex_heap_def)
  have "find_split ex_heap 0 (Some 2) 1 1 = Inr (Some 2, 1)"
    by (subst find_split.simps) simp
  then have f: "find_split ex_heap 0 (Some 1) 0 1 = Inr (Some 2, 1)"
    by (subst find_split.simps) (simp add: end_it_def incr_def ex_heap_def)
  have t: "transfer_range ex_heap (Some 0) (Some 1) (Some 2) = Inr ex_rotated"
    by (auto simp: transfer_range_def ex_heap_def ex_rotated_def fun_eq_iff)
  have e: "extract_front ex_heap 0 0 1 = Inr (ex_rotated, 1)"
    using b f t by (simp add: extract_front_def splice_range_def end_it_def)
  have r: "list_at ex_rotated 0 [2, 1]" by (simp add: list_at_def ex_rotated_def)
  have nr: "\<not> list_at ex_rotated 0 (drop 1 [1, 2])" by (simp add: list_at_def ex_rotated_def)
  show ?thesis using ex_heap_list e r forward_list[OF r] nr by blast
qed

text \<open>
  C6, as amended. In a well-formed store where the list at \<open>s\<close> holds
  \<open>as @ x # bs\<close>, the destructor of \<open>x\<close> returns; \<open>x\<close> is then not linked, the list
  holds \<open>as @ bs\<close>, the forward walk yields \<open>as @ bs\<close> and the backward walk its
  reverse, and the warning is written to \<^verbatim>\<open>stderr\<close> exactly when \<^verbatim>\<open>NDEBUG\<close> is not
  defined.
\<close>

theorem destroy_auto_unlinks:
  assumes "well_formed h M" and "M s = Some (as @ x # bs)"
  shows "\<exists>h'. destroy ndebug h x = Inr h'
           \<and> \<not> is_linked h' x
           \<and> list_at h' s (as @ bs)
           \<and> well_formed h' (M(s \<mapsto> as @ bs))
           \<and> forward h' s = Some (Inr (as @ bs))
           \<and> backward h' s = Some (Inr (rev (as @ bs)))
           \<and> stderr h' = (if ndebug then stderr h else stderr h @ [warning])"
proof -
  obtain h' where d: "destroy ndebug h x = Inr h'" and w: "well_formed h' (M(s \<mapsto> as @ bs))"
    and f: "is_linked_f h' = (is_linked_f h)(x := False)"
    and e: "stderr h' = (if ndebug then stderr h else stderr h @ [warning])"
    using wf_destroy[OF assms, of ndebug] by blast
  have l: "list_at h' s (as @ bs)" using w by (rule wfD1) simp
  have "\<not> is_linked h' x" using f by (simp add: is_linked_def)
  then show ?thesis using d w e l forward_list[OF l] backward_list[OF l] by blast
qed

theorem destroy_auto_unlinks_witness:
  "well_formed ex_heap ex_lists \<and> ex_lists 0 = Some ([] @ 1 # [2])
   \<and> (\<exists>h'. destroy False ex_heap 1 = Inr h' \<and> \<not> is_linked h' 1 \<and> list_at h' 0 [2]
          \<and> forward h' 0 = Some (Inr [2]) \<and> backward h' 0 = Some (Inr [2])
          \<and> stderr h' = [warning])"
proof -
  have m: "ex_lists 0 = Some ([] @ 1 # [2])" by (simp add: ex_lists_def)
  have s: "stderr ex_heap = []" by (simp add: ex_heap_def)
  obtain h' where "destroy False ex_heap 1 = Inr h'" "\<not> is_linked h' 1" "list_at h' 0 ([] @ [2])"
    "forward h' 0 = Some (Inr ([] @ [2]))" "backward h' 0 = Some (Inr (rev ([] @ [2])))"
    "stderr h' = (if False then stderr ex_heap else stderr ex_heap @ [warning])"
    using destroy_auto_unlinks[OF ex_well_formed m, of False] by blast
  then have "\<exists>h'. destroy False ex_heap 1 = Inr h' \<and> \<not> is_linked h' 1 \<and> list_at h' 0 [2]
          \<and> forward h' 0 = Some (Inr [2]) \<and> backward h' 0 = Some (Inr [2])
          \<and> stderr h' = [warning]"
    using s by simp
  then show ?thesis using ex_well_formed m by blast
qed

text \<open>
  C6 as stated fails in a build with \<^verbatim>\<open>NDEBUG\<close>: the destructor of the linked
  element at 1 returns and nothing has been written to \<^verbatim>\<open>stderr\<close>; without
  \<^verbatim>\<open>NDEBUG\<close> the warning is there.
\<close>

theorem destroy_silent_counterexample:
  "list_at ex_heap 0 [1, 2] \<and> is_linked ex_heap 1 \<and> stderr ex_heap = []
   \<and> map_sum id stderr (destroy True ex_heap 1) = Inr []
   \<and> map_sum id stderr (destroy False ex_heap 1) = Inr [warning]"
proof -
  have "map_sum id stderr (destroy True ex_heap 1) = Inr []"
    by (simp add: destroy_def unlink_def unlink_base_def assert_holds_def ex_heap_def)
  moreover have "map_sum id stderr (destroy False ex_heap 1) = Inr [warning]"
    by (simp add: destroy_def unlink_def unlink_base_def assert_holds_def ex_heap_def)
  ultimately show ?thesis using ex_heap_list
    by (simp add: is_linked_def ex_heap_def)
qed




text \<open>
  C5. \<^verbatim>\<open>is_linked()\<close> is false on a freshly constructed node. In a well-formed
  store an object is linked exactly when it is an element of a list; an element
  in no list is linked after \<^verbatim>\<open>push_back\<close>, \<^verbatim>\<open>push_front\<close> or \<^verbatim>\<open>insert\<close> of it; an
  element of a list is linked, and is not linked after \<^verbatim>\<open>unlink\<close>, \<^verbatim>\<open>erase\<close>,
  \<^verbatim>\<open>pop_front\<close> or \<^verbatim>\<open>pop_back\<close> removed it; and after every run of calls made
  within their preconditions an object is again linked exactly when it is an
  element of a list.
\<close>

theorem is_linked_lifecycle:
  assumes "well_formed h M"
  shows "\<not> is_linked (IntrusiveListNode h0 x0) x0
     \<and> (\<forall>a. is_linked h a = (\<exists>t ts. M t = Some ts \<and> a \<in> set ts))
     \<and> (M s = Some xs \<and> fresh M x \<longrightarrow>
          \<not> is_linked h x
          \<and> (\<exists>h'. push_back ndebug h s x = Inr h' \<and> is_linked h' x)
          \<and> (\<exists>h'. push_front ndebug h s x = Inr h' \<and> is_linked h' x))
     \<and> (M s = Some (as @ bs) \<and> fresh M x \<longrightarrow>
          (\<exists>h'. insert_at ndebug h s (it_at s bs) x = Inr (h', Some x) \<and> is_linked h' x))
     \<and> (M s = Some (us @ y # vs) \<longrightarrow>
          is_linked h y
          \<and> (\<exists>h'. unlink ndebug h y = Inr h' \<and> \<not> is_linked h' y)
          \<and> (\<exists>h' it. erase ndebug h s (Some y) = Inr (h', it) \<and> \<not> is_linked h' y))
     \<and> (M s = Some (y # ys) \<longrightarrow> (\<exists>h'. pop_front ndebug h s = Inr h' \<and> \<not> is_linked h' y))
     \<and> (M s = Some (zs @ [z]) \<longrightarrow> (\<exists>h'. pop_back ndebug h s = Inr h' \<and> \<not> is_linked h' z))
     \<and> (asteps M cs M' \<longrightarrow>
          (\<exists>h'. exec_all ndebug h cs = Inr h'
                \<and> (\<forall>a. is_linked h' a = (\<exists>t ts. M' t = Some ts \<and> a \<in> set ts))))"
proof (intro conjI impI)
  show "\<not> is_linked (IntrusiveListNode h0 x0) x0"
    by (simp add: is_linked_def IntrusiveListNode_def)
next
  show "\<forall>a. is_linked h a = (\<exists>t ts. M t = Some ts \<and> a \<in> set ts)"
    using well_formed_flags[OF assms] by blast
next
  assume "M s = Some xs \<and> fresh M x"
  then show "\<not> is_linked h x" using fresh_unlinked[OF assms] by (simp add: is_linked_def)
next
  assume a: "M s = Some xs \<and> fresh M x"
  obtain h' where "push_back ndebug h s x = Inr h'" "is_linked_f h' = (is_linked_f h)(x := True)"
    using wf_push_back[OF assms, of s xs x ndebug] a by blast
  then show "\<exists>h'. push_back ndebug h s x = Inr h' \<and> is_linked h' x" by (simp add: is_linked_def)
next
  assume a: "M s = Some xs \<and> fresh M x"
  obtain h' where "push_front ndebug h s x = Inr h'" "is_linked_f h' = (is_linked_f h)(x := True)"
    using wf_push_front[OF assms, of s xs x ndebug] a by blast
  then show "\<exists>h'. push_front ndebug h s x = Inr h' \<and> is_linked h' x" by (simp add: is_linked_def)
next
  assume a: "M s = Some (as @ bs) \<and> fresh M x"
  obtain h' where "insert_at ndebug h s (it_at s bs) x = Inr (h', Some x)"
    "is_linked_f h' = (is_linked_f h)(x := True)"
    using wf_insert_at[OF assms, of s as bs x ndebug] a by blast
  then show "\<exists>h'. insert_at ndebug h s (it_at s bs) x = Inr (h', Some x) \<and> is_linked h' x"
    by (simp add: is_linked_def)
next
  assume a: "M s = Some (us @ y # vs)"
  have "list_at h s (us @ y # vs)" using assms a by (rule wfD1)
  then show "is_linked h y" by (simp add: list_at_def is_linked_def)
next
  assume a: "M s = Some (us @ y # vs)"
  obtain h' where "unlink ndebug h y = Inr h'" "is_linked_f h' = (is_linked_f h)(y := False)"
    using wf_unlink[OF assms a, of ndebug] by blast
  then show "\<exists>h'. unlink ndebug h y = Inr h' \<and> \<not> is_linked h' y" by (simp add: is_linked_def)
next
  assume a: "M s = Some (us @ y # vs)"
  obtain h' where "erase ndebug h s (Some y) = Inr (h', it_at s vs)"
    "is_linked_f h' = (is_linked_f h)(y := False)"
    using wf_erase[OF assms a, of ndebug] by blast
  then show "\<exists>h' it. erase ndebug h s (Some y) = Inr (h', it) \<and> \<not> is_linked h' y"
    by (simp add: is_linked_def)
next
  assume a: "M s = Some (y # ys)"
  obtain h' where "pop_front ndebug h s = Inr h'" "is_linked_f h' = (is_linked_f h)(y := False)"
    using wf_pop_front[OF assms a, of ndebug] by blast
  then show "\<exists>h'. pop_front ndebug h s = Inr h' \<and> \<not> is_linked h' y" by (simp add: is_linked_def)
next
  assume a: "M s = Some (zs @ [z])"
  obtain h' where "pop_back ndebug h s = Inr h'" "is_linked_f h' = (is_linked_f h)(z := False)"
    using wf_pop_back[OF assms a, of ndebug] by blast
  then show "\<exists>h'. pop_back ndebug h s = Inr h' \<and> \<not> is_linked h' z" by (simp add: is_linked_def)
next
  assume a: "asteps M cs M'"
  obtain h' where e: "exec_all ndebug h cs = Inr h'" and w: "well_formed h' M'"
    using exec_all_refines[OF a assms, of ndebug] by blast
  show "\<exists>h'. exec_all ndebug h cs = Inr h'
          \<and> (\<forall>a. is_linked h' a = (\<exists>t ts. M' t = Some ts \<and> a \<in> set ts))"
    using e well_formed_flags[OF w] by blast
qed

theorem is_linked_lifecycle_witness:
  "well_formed ex_heap ex_lists
   \<and> \<not> is_linked (IntrusiveListNode ex_heap 3) 3
   \<and> ex_lists 0 = Some [1, 2] \<and> fresh ex_lists 3
   \<and> (\<exists>h'. push_back False ex_heap 0 3 = Inr h' \<and> is_linked h' 3)
   \<and> (\<exists>h'. push_front False ex_heap 0 3 = Inr h' \<and> is_linked h' 3)
   \<and> (\<exists>h'. insert_at False ex_heap 0 (Some 2) 3 = Inr (h', Some 3) \<and> is_linked h' 3)
   \<and> is_linked ex_heap 1
   \<and> (\<exists>h'. unlink False ex_heap 1 = Inr h' \<and> \<not> is_linked h' 1)
   \<and> (\<exists>h' it. erase False ex_heap 0 (Some 1) = Inr (h', it) \<and> \<not> is_linked h' 1)
   \<and> (\<exists>h'. pop_front False ex_heap 0 = Inr h' \<and> \<not> is_linked h' 1)
   \<and> (\<exists>h'. pop_back False ex_heap 0 = Inr h' \<and> \<not> is_linked h' 2)
   \<and> asteps ex_lists [PopFront 0] (ex_lists(0 \<mapsto> [2]))
   \<and> (\<exists>h'. exec_all False ex_heap [PopFront 0] = Inr h' \<and> \<not> is_linked h' 1 \<and> is_linked h' 2)"
proof -
  have m: "ex_lists 0 = Some [1, 2]" by (simp add: ex_lists_def)
  have f: "fresh ex_lists 3" by (auto simp: fresh_def ex_lists_def split: if_splits)
  have p: "astep ex_lists (PopFront 0) (ex_lists(0 \<mapsto> [2]))"
    by (rule astep.pop_front[of _ _ 1]) (rule m)
  have a: "asteps ex_lists [PopFront 0] (ex_lists(0 \<mapsto> [2]))"
    by (rule asteps.cons[OF p asteps.nil])
  note t = is_linked_lifecycle[OF ex_well_formed,
      of ex_heap 3 0 "[1, 2]" 3 False "[1]" "[2]" "[]" 1 "[2]" "[2]" "[1]" 2 "[PopFront 0]"
         "ex_lists(0 \<mapsto> [2])"]
  have m2: "ex_lists 0 = Some ([] @ 1 # [2])" and m3: "ex_lists 0 = Some ([1] @ [2])"
    using m by simp_all
  have 0: "\<not> is_linked (IntrusiveListNode ex_heap 3) 3" using t by blast
  have 1: "(\<exists>h'. push_back False ex_heap 0 3 = Inr h' \<and> is_linked h' 3)
           \<and> (\<exists>h'. push_front False ex_heap 0 3 = Inr h' \<and> is_linked h' 3)"
    using t m f by blast
  have "\<exists>h'. insert_at False ex_heap 0 (it_at 0 [2]) 3 = Inr (h', Some 3) \<and> is_linked h' 3"
    using t m3 f by blast
  then have 2: "\<exists>h'. insert_at False ex_heap 0 (Some 2) 3 = Inr (h', Some 3) \<and> is_linked h' 3"
    by (simp add: it_at_def)
  have 3: "is_linked ex_heap 1
     \<and> (\<exists>h'. unlink False ex_heap 1 = Inr h' \<and> \<not> is_linked h' 1)
     \<and> (\<exists>h' it. erase False ex_heap 0 (Some 1) = Inr (h', it) \<and> \<not> is_linked h' 1)"
    using t m2 by blast
  have 4: "\<exists>h'. pop_front False ex_heap 0 = Inr h' \<and> \<not> is_linked h' 1" using t m by blast
  have 5: "\<exists>h'. pop_back False ex_heap 0 = Inr h' \<and> \<not> is_linked h' 2" using t m3 by blast
  obtain h' where e: "exec_all False ex_heap [PopFront 0] = Inr h'"
    and fl: "\<forall>a. is_linked h' a = (\<exists>t ts. (ex_lists(0 \<mapsto> [2])) t = Some ts \<and> a \<in> set ts)"
    using t a by blast
  have "\<not> is_linked h' 1" using fl by (auto simp: ex_lists_def split: if_splits)
  moreover have "is_linked h' 2" using fl by (auto simp: ex_lists_def intro: exI[of _ 0])
  ultimately have 6: "\<exists>h'. exec_all False ex_heap [PopFront 0] = Inr h' \<and> \<not> is_linked h' 1 \<and> is_linked h' 2"
    using e by blast
  show ?thesis using ex_well_formed m f a 0 1 2 3 4 5 6 by blast
qed

end
